theory Spec2Isabelle
  imports Main
begin

section \<open>Strings of the Go runtime\<close>

text \<open>
  A Go \<open>string\<close> is a sequence of bytes; it is modelled as a \<open>char list\<close>, one \<open>char\<close> per
  byte, and \<open>length\<close> is Go's \<open>len\<close>.  The case-insensitive functions of package
  \<open>strings\<close> are modelled on ASCII letters: bytes outside \<open>A-Z\<close> are left alone.  For the
  reserved device names that is exact, because none of them contains \<open>K\<close> or \<open>S\<close>, the only
  ASCII letters with a non-ASCII case-folding partner.
\<close>

definition bs :: char where
  "bs = CHR 0x5C"

definition is_upper :: "char \<Rightarrow> bool" where
  "is_upper c = (65 \<le> (of_char c :: nat) \<and> (of_char c :: nat) \<le> 90)"

definition is_lower :: "char \<Rightarrow> bool" where
  "is_lower c = (97 \<le> (of_char c :: nat) \<and> (of_char c :: nat) \<le> 122)"

definition is_letter :: "char \<Rightarrow> bool" where
  "is_letter c = (is_upper c \<or> is_lower c)"

definition lower_char :: "char \<Rightarrow> char" where
  "lower_char c = (if is_upper c then char_of (of_char c + (32::nat)) else c)"

definition ToLower :: "string \<Rightarrow> string" where
  "ToLower s = map lower_char s"

definition EqualFold :: "string \<Rightarrow> string \<Rightarrow> bool" where
  "EqualFold s t = (ToLower s = ToLower t)"

definition HasPrefix :: "string \<Rightarrow> string \<Rightarrow> bool" where
  "HasPrefix s p = (take (length p) s = p)"

definition HasSuffix :: "string \<Rightarrow> string \<Rightarrow> bool" where
  "HasSuffix s p = (length p \<le> length s \<and> drop (length s - length p) s = p)"

definition TrimPrefix :: "string \<Rightarrow> string \<Rightarrow> string" where
  "TrimPrefix s p = (if HasPrefix s p then drop (length p) s else s)"

definition TrimSuffix :: "string \<Rightarrow> string \<Rightarrow> string" where
  "TrimSuffix s p = (if HasSuffix s p then take (length s - length p) s else s)"

definition ReplaceAll :: "string \<Rightarrow> char \<Rightarrow> char \<Rightarrow> string" where
  "ReplaceAll s a b = map (\<lambda>c. if c = a then b else c) s"

text \<open>\<open>strings.Split\<close> and \<open>strings.Join\<close> with a one-byte separator.\<close>

fun Split :: "string \<Rightarrow> char \<Rightarrow> string list" where
  "Split [] sep = [[]]"
| "Split (c # cs) sep =
     (if c = sep then [] # Split cs sep
      else (let r = Split cs sep in (c # hd r) # tl r))"

fun Join_strings :: "string list \<Rightarrow> string \<Rightarrow> string" where
  "Join_strings [] sep = []"
| "Join_strings [x] sep = x"
| "Join_strings (x # y # ys) sep = x @ sep @ Join_strings (y # ys) sep"

text \<open>The class \<open>\s\<close> of Go's \<open>regexp\<close>: tab, newline, form feed, carriage return, space.\<close>

definition is_space :: "char \<Rightarrow> bool" where
  "is_space c = (c = CHR 0x09 \<or> c = CHR 0x0A \<or> c = CHR 0x0C \<or> c = CHR 0x0D \<or> c = CHR 0x20)"

section \<open>Package ntpath: component names\<close>

datatype error =
    ErrNoName | ErrNotRelative | ErrInvalidName | ErrInvalidAnchor | ErrInvalidSuffix

definition ReservedNames :: "string list" where
  "ReservedNames =
     [''CON'', ''PRN'', ''AUX'', ''NUL'',
      ''COM1'', ''COM2'', ''COM3'', ''COM4'', ''COM5'', ''COM6'', ''COM7'', ''COM8'', ''COM9'',
      ''LPT1'', ''LPT2'', ''LPT3'', ''LPT4'', ''LPT5'', ''LPT6'', ''LPT7'', ''LPT8'', ''LPT9'']"

definition InvalidChars :: string where
  "InvalidChars = ''<>:/'' @ [bs] @ ''|?*'' @ [CHR 0x22]"

text \<open>
  \<open>ValidateName\<close> returns \<open>None\<close> for Go's \<open>nil\<close> and otherwise the sentinel that the
  returned error wraps.  The checks are in the order of the source.
\<close>

definition ValidateName :: "string \<Rightarrow> error option" where
  "ValidateName name =
     (if length name = 0 then Some ErrNoName
      else if length name > 255 then Some ErrInvalidName
      else if last name = CHR ''.'' then Some ErrInvalidName
      else if is_space (last name) then Some ErrInvalidName
      else if (\<exists>c \<in> set name. c = CHR 0x0A \<or> c = CHR 0x0D) then Some ErrInvalidName
      else if (\<exists>c \<in> set InvalidChars. c \<in> set name) then Some ErrInvalidName
      else if (\<exists>r \<in> set ReservedNames. EqualFold name r) then Some ErrInvalidName
      else None)"

text \<open>
  \<open>ToValidName\<close>: truncate to 255 bytes, replace every reserved character by an underscore,
  delete the trailing run matched by \<open>[\s.]+$\<close>, turn newlines into spaces, append an
  underscore to a reserved name (the loop breaks at the first hit), and return an underscore
  for an empty result.
\<close>

definition strip_trailing :: "string \<Rightarrow> string" where
  "strip_trailing s = rev (dropWhile (\<lambda>c. is_space c \<or> c = CHR ''.'') (rev s))"

definition ToValidName :: "string \<Rightarrow> string" where
  "ToValidName name =
     (if length name = 0 then ''_''
      else
        let n1 = (if length name > 255 then take 255 name else name);
            n2 = map (\<lambda>c. if c \<in> set InvalidChars then CHR ''_'' else c) n1;
            n3 = strip_trailing n2;
            n4 = map (\<lambda>c. if c = CHR 0x0A \<or> c = CHR 0x0D then CHR '' '' else c) n3;
            n5 = (if (\<exists>r \<in> set ReservedNames. EqualFold n4 r) then n4 @ ''_'' else n4)
        in if length n5 = 0 then ''_'' else n5)"

definition plain_char :: "char \<Rightarrow> bool" where
  "plain_char c = (is_letter c \<or> (48 \<le> (of_char c :: nat) \<and> (of_char c :: nat) \<le> 57))"

section \<open>Package path/filepath: shell patterns\<close>

text \<open>
  The repository calls \<open>filepath.Match\<close>, \<open>filepath.ToSlash\<close>, \<open>filepath.Clean\<close> and
  \<open>filepath.Join\<close> of the Go standard library, in the Windows build (the only platform the
  repository implements).  They are modelled here after the library's algorithms.  On Windows
  the separator is the backslash and a pattern has no escape character.  The source discards
  the error of \<open>filepath.Match\<close>, and \<open>matched\<close> is false whenever the error is not nil, so
  the model returns \<open>matched\<close> alone: \<open>None\<close> inside the helpers stands for
  \<open>ErrBadPattern\<close>.
\<close>

definition Separator :: char where
  "Separator = bs"

definition ToSlash :: "string \<Rightarrow> string" where
  "ToSlash s = ReplaceAll s Separator (CHR ''/'')"

definition FromSlash :: "string \<Rightarrow> string" where
  "FromSlash s = ReplaceAll s (CHR ''/'') Separator"

fun scan_end :: "bool \<Rightarrow> string \<Rightarrow> nat" where
  "scan_end inrange [] = 0"
| "scan_end inrange (c # cs) =
     (if c = CHR ''['' then Suc (scan_end True cs)
      else if c = CHR '']'' then Suc (scan_end False cs)
      else if c = CHR ''*'' \<and> \<not> inrange then 0
      else Suc (scan_end inrange cs))"

definition scanChunk :: "string \<Rightarrow> bool \<times> string \<times> string" where
  "scanChunk pattern =
     (let star = (pattern \<noteq> [] \<and> hd pattern = CHR ''*'');
          p = dropWhile (\<lambda>c. c = CHR ''*'') pattern;
          i = scan_end False p
      in (star, take i p, drop i p))"

text \<open>
  \<open>utf8.DecodeRuneInString\<close>: the rune at the start of the string and its width in bytes.
  A byte sequence that is not the UTF-8 encoding of a rune (a stray continuation byte, a
  truncated or overlong sequence, a surrogate, a value above \<open>U+10FFFF\<close>) decodes to
  \<open>RuneError\<close> with width 1; the empty string to \<open>RuneError\<close> with width 0.  \<open>utf8_size\<close> is
  the length that the first byte announces (0 for a byte that cannot start a sequence) and
  \<open>accept_lo\<close>, \<open>accept_hi\<close> bound the second byte.  \<open>decode1\<close> to \<open>decode4\<close> are the
  steps of the function, one for each byte it reads; they get the bytes after the first.
\<close>

definition RuneError :: int where
  "RuneError = 0xFFFD"

definition utf8_size :: "int \<Rightarrow> nat" where
  "utf8_size s0 =
     (if s0 < 0x80 then 1 else if s0 < 0xC2 then 0 else if s0 < 0xE0 then 2
      else if s0 < 0xF0 then 3 else if s0 < 0xF5 then 4 else 0)"

definition accept_lo :: "int \<Rightarrow> int" where
  "accept_lo s0 = (if s0 = 0xE0 then 0xA0 else if s0 = 0xF0 then 0x90 else 0x80)"

definition accept_hi :: "int \<Rightarrow> int" where
  "accept_hi s0 = (if s0 = 0xED then 0x9F else if s0 = 0xF4 then 0x8F else 0xBF)"

definition cont_byte :: "int \<Rightarrow> bool" where
  "cont_byte b = (0x80 \<le> b \<and> b \<le> 0xBF)"

fun decode4 :: "int \<Rightarrow> int \<Rightarrow> int \<Rightarrow> int list \<Rightarrow> int \<times> nat" where
  "decode4 s0 s1 s2 [] = (RuneError, 1)"
| "decode4 s0 s1 s2 (s3 # rest) =
     (if \<not> cont_byte s3 then (RuneError, 1)
      else ((s0 mod 8) * 262144 + (s1 mod 64) * 4096 + (s2 mod 64) * 64 + s3 mod 64, 4))"

fun decode3 :: "nat \<Rightarrow> int \<Rightarrow> int \<Rightarrow> int list \<Rightarrow> int \<times> nat" where
  "decode3 sz s0 s1 [] = (RuneError, 1)"
| "decode3 sz s0 s1 (s2 # rest) =
     (if \<not> cont_byte s2 then (RuneError, 1)
      else if sz \<le> 3 then ((s0 mod 16) * 4096 + (s1 mod 64) * 64 + s2 mod 64, 3)
      else decode4 s0 s1 s2 rest)"

fun decode2 :: "nat \<Rightarrow> int \<Rightarrow> int list \<Rightarrow> int \<times> nat" where
  "decode2 sz s0 [] = (RuneError, 1)"
| "decode2 sz s0 (s1 # rest) =
     (if s1 < accept_lo s0 \<or> accept_hi s0 < s1 then (RuneError, 1)
      else if sz \<le> 2 then ((s0 mod 32) * 64 + s1 mod 64, 2)
      else decode3 sz s0 s1 rest)"

definition decode1 :: "nat \<Rightarrow> int \<Rightarrow> int list \<Rightarrow> int \<times> nat" where
  "decode1 sz s0 rest =
     (if sz = 1 then (s0, 1)
      else if sz = 0 then (RuneError, 1)
      else if Suc (length rest) < sz then (RuneError, 1)
      else decode2 sz s0 rest)"

fun DecodeRuneInString :: "string \<Rightarrow> int \<times> nat" where
  "DecodeRuneInString [] = (RuneError, 0)"
| "DecodeRuneInString (c # cs) = decode1 (utf8_size (of_char c)) (of_char c) (map of_char cs)"

text \<open>
  \<open>getEsc\<close> reads one rune of a character class; there is no escape character on Windows.
\<close>

definition getEsc :: "string \<Rightarrow> (int \<times> string) option" where
  "getEsc chunk =
     (if chunk = [] \<or> hd chunk = CHR ''-'' \<or> hd chunk = CHR '']'' then None
      else
        (case DecodeRuneInString chunk of
           (r, n) \<Rightarrow>
             if r = RuneError \<and> n = 1 then None
             else if drop n chunk = [] then None
             else Some (r, drop n chunk)))"

definition in_range :: "int \<Rightarrow> int \<Rightarrow> int \<Rightarrow> bool" where
  "in_range lo r hi = (lo \<le> r \<and> r \<le> hi)"

lemma decode4_width: "decode4 s0 s1 s2 rest = (r, n) \<Longrightarrow> 1 \<le> n \<and> n \<le> length rest + 3"
  by (cases rest) (auto split: if_splits)

lemma decode3_width: "decode3 sz s0 s1 rest = (r, n) \<Longrightarrow> 1 \<le> n \<and> n \<le> length rest + 2"
  by (cases rest) (auto split: if_splits dest: decode4_width)

lemma decode2_width: "decode2 sz s0 rest = (r, n) \<Longrightarrow> 1 \<le> n \<and> n \<le> length rest + 1"
  by (cases rest) (auto split: if_splits dest: decode3_width)

lemma decode1_width: "decode1 sz s0 rest = (r, n) \<Longrightarrow> 1 \<le> n \<and> n \<le> length rest + 1"
  by (auto simp: decode1_def split: if_splits dest: decode2_width)

lemma DecodeRuneInString_width:
  "DecodeRuneInString s = (r, n) \<Longrightarrow> s \<noteq> [] \<Longrightarrow> 1 \<le> n \<and> n \<le> length s"
  by (cases s) (auto dest: decode1_width)

function parse_ranges :: "int \<Rightarrow> string \<Rightarrow> nat \<Rightarrow> bool \<Rightarrow> (bool \<times> string) option" where
  "parse_ranges r chunk nrange match =
     (if chunk \<noteq> [] \<and> hd chunk = CHR '']'' \<and> nrange > 0 then Some (match, tl chunk)
      else
        (case getEsc chunk of
           None \<Rightarrow> None
         | Some (lo, ch1) \<Rightarrow>
             (if hd ch1 = CHR ''-'' then
                (case getEsc (tl ch1) of
                   None \<Rightarrow> None
                 | Some (hi, ch2) \<Rightarrow>
                     parse_ranges r ch2 (Suc nrange) (match \<or> in_range lo r hi))
              else parse_ranges r ch1 (Suc nrange) (match \<or> in_range lo r lo))))"
  by pat_completeness auto
termination
  by (relation "measure (\<lambda>(r, chunk, nrange, match). length chunk)")
     (auto simp: getEsc_def dest: DecodeRuneInString_width split: if_splits prod.splits)

declare parse_ranges.simps [simp del]

lemma parse_ranges_length:
  "parse_ranges r chunk nrange match = Some (m, rest) \<Longrightarrow> length rest \<le> length chunk"
proof (induction r chunk nrange match rule: parse_ranges.induct)
  case (1 r chunk nrange match)
  show ?case
  proof (cases "chunk \<noteq> [] \<and> hd chunk = CHR '']'' \<and> nrange > 0")
    case True
    with "1.prems" show ?thesis by (auto simp: parse_ranges.simps [of r chunk])
  next
    case False
    note eq = parse_ranges.simps [of r chunk nrange match]
    from False "1.prems" obtain lo ch1 where g1: "getEsc chunk = Some (lo, ch1)"
      by (auto simp: eq split: option.splits)
    then have l1: "length ch1 \<le> length chunk"
      by (auto simp: getEsc_def split: if_splits prod.splits)
    show ?thesis
    proof (cases "hd ch1 = CHR ''-''")
      case True
      with False g1 "1.prems" obtain hi ch2 where g2: "getEsc (tl ch1) = Some (hi, ch2)"
        by (auto simp: eq split: option.splits)
      then have "length ch2 \<le> length ch1"
        by (auto simp: getEsc_def split: if_splits prod.splits)
      moreover have "length rest \<le> length ch2"
        using "1.IH"(1) [OF False g1 refl True g2 refl] "1.prems" False g1 True g2
        by (simp add: eq)
      ultimately show ?thesis using l1 by simp
    next
      case nd: False
      have "length rest \<le> length ch1"
        using "1.IH"(2) [OF False g1 refl nd] "1.prems" False g1 nd by (simp add: eq)
      then show ?thesis using l1 by simp
    qed
  qed
qed

text \<open>
  \<open>matchChunk\<close>: the flag \<open>failed\<close> records that the match has failed; the loop goes on
  over the chunk to check that the pattern is well formed.  The result is the rest of the
  name and \<open>ok\<close>.  A character class and a \<open>?\<close> take one rune of the name, every other
  byte of the chunk is compared with one byte of the name.
\<close>

function matchChunk :: "bool \<Rightarrow> string \<Rightarrow> string \<Rightarrow> (string \<times> bool) option" where
  "matchChunk failed [] s = Some (if failed then ([], False) else (s, True))"
| "matchChunk failed0 (c # chunk) s =
     (let failed = (failed0 \<or> s = []) in
      if c = CHR ''['' then
        (let r = (if failed then 0 else fst (DecodeRuneInString s));
             s1 = (if failed then s else drop (snd (DecodeRuneInString s)) s);
             negated = (chunk \<noteq> [] \<and> hd chunk = CHR ''^'');
             chunk1 = (if negated then tl chunk else chunk)
         in case parse_ranges r chunk1 0 False of
              None \<Rightarrow> None
            | Some (match, chunk2) \<Rightarrow> matchChunk (failed \<or> match = negated) chunk2 s1)
      else if c = CHR ''?'' then
        (if failed then matchChunk failed chunk s
         else matchChunk (hd s = Separator) chunk (drop (snd (DecodeRuneInString s)) s))
      else
        (if failed then matchChunk failed chunk s
         else matchChunk (c \<noteq> hd s) chunk (tl s)))"
  by pat_completeness auto
termination
proof (relation "measure (\<lambda>(failed, chunk, s). length chunk)", goal_cases)
  case 1
  show ?case by simp
next
  case (2 failed0 c chunk s failed r s1 negated chunk1 x2 match chunk2)
  then have "length chunk2 \<le> length chunk1" using parse_ranges_length by metis
  moreover have "length chunk1 \<le> length chunk" using 2 by simp
  ultimately show ?case by simp
qed auto

declare matchChunk.simps [simp del]

text \<open>
  \<open>Match\<close> of \<open>path/filepath\<close>.  \<open>star_try\<close> is the inner loop that skips \<open>i + 1\<close> bytes of
  the name after a star; it gives the new name when a position matches.
\<close>

fun star_try :: "string \<Rightarrow> bool \<Rightarrow> string \<Rightarrow> string option option" where
  "star_try chunk last_chunk [] = Some None"
| "star_try chunk last_chunk (c # name) =
     (if c = Separator then Some None
      else
        (case matchChunk False chunk name of
           None \<Rightarrow> None
         | Some (t, ok) \<Rightarrow>
             if ok \<and> \<not> (last_chunk \<and> t \<noteq> []) then Some (Some t)
             else star_try chunk last_chunk name))"

lemma scan_end_pos: "p \<noteq> [] \<Longrightarrow> hd p \<noteq> CHR ''*'' \<Longrightarrow> 0 < scan_end False p"
  by (cases p) auto

lemma scanChunk_shorter:
  assumes "pattern \<noteq> []" "(star, chunk, rest) = scanChunk pattern"
  shows "length rest < length pattern"
proof -
  let ?p = "dropWhile (\<lambda>c. c = CHR ''*'') pattern"
  have rest: "rest = drop (scan_end False ?p) ?p"
    using assms(2) by (simp add: scanChunk_def Let_def)
  show ?thesis
  proof (cases "hd pattern = CHR ''*''")
    case True
    with assms(1) have "length ?p < length pattern"
      by (cases pattern) (auto simp: le_imp_less_Suc length_dropWhile_le)
    then show ?thesis using rest by simp
  next
    case False
    with assms(1) have p: "?p = pattern" by (cases pattern) auto
    with False assms(1) have "0 < scan_end False ?p" by (simp add: scan_end_pos)
    then show ?thesis using rest p assms(1) by simp
  qed
qed

function filepath_Match :: "string \<Rightarrow> string \<Rightarrow> bool" where
  "filepath_Match pattern name =
     (if pattern = [] then name = []
      else
        (case scanChunk pattern of
           (star, chunk, rest) \<Rightarrow>
             if star \<and> chunk = [] then Separator \<notin> set name
             else
               (case matchChunk False chunk name of
                  None \<Rightarrow> False
                | Some (t, ok) \<Rightarrow>
                    if ok \<and> (t = [] \<or> rest \<noteq> []) then filepath_Match rest t
                    else if star then
                      (case star_try chunk (rest = []) name of
                         None \<Rightarrow> False
                       | Some None \<Rightarrow> False
                       | Some (Some t') \<Rightarrow> filepath_Match rest t')
                    else False)))"
  by pat_completeness auto
termination
  by (relation "measure (\<lambda>(pattern, name). length pattern)")
     (auto intro: scanChunk_shorter)

declare filepath_Match.simps [simp del]

section \<open>Package ntpath: Match\<close>

text \<open>
  The closure \<open>match\<close> of \<open>ntpath.Match\<close> reads and writes the map \<open>memo\<close>; the model
  passes the map along and returns it.  \<open>first_true\<close> is the \<open>for\<close> loop of the \<open>**\<close> case: it
  runs the body on each position in turn and returns at the first \<open>true\<close>.  Reading
  \<open>patternParts[patternIdx]\<close> beyond the slice panics in Go: that is the result \<open>None\<close>.
  The one-segment matcher \<open>gm\<close> is a parameter of the closure's model; \<open>Match\<close> passes
  \<open>filepath.Match\<close>, as the source does.
\<close>

type_synonym memo = "nat \<times> nat \<rightharpoonup> bool"

fun first_true :: "(nat \<Rightarrow> memo \<Rightarrow> (bool \<times> memo) option) \<Rightarrow> nat list \<Rightarrow> memo \<Rightarrow> (bool \<times> memo) option" where
  "first_true f [] m = Some (False, m)"
| "first_true f (x # xs) m =
     (case f x m of
        None \<Rightarrow> None
      | Some (r, m') \<Rightarrow> if r then Some (True, m') else first_true f xs m')"

lemma first_true_cong [fundef_cong]:
  assumes "xs = ys" "m = m'" "\<And>x m. x \<in> set ys \<Longrightarrow> f x m = g x m"
  shows "first_true f xs m = first_true g ys m'"
  using assms by (induction ys arbitrary: xs m m') (auto split: option.splits)

function match_memo ::
  "(string \<Rightarrow> string \<Rightarrow> bool) \<Rightarrow> string list \<Rightarrow> string list \<Rightarrow> nat \<Rightarrow> nat \<Rightarrow> memo \<Rightarrow> (bool \<times> memo) option" where
  "match_memo gm patternParts pathParts patternIdx pathIdx m =
     (case m (patternIdx, pathIdx) of
        Some v \<Rightarrow> Some (v, m)
      | None \<Rightarrow>
          (case
             (if patternIdx = length patternParts then Some (pathIdx = length pathParts, m)
              else if patternIdx > length patternParts then None
              else if patternParts ! patternIdx = ''**'' then
                first_true (\<lambda>currentPathPos. match_memo gm patternParts pathParts (patternIdx + 1) currentPathPos)
                  [pathIdx ..< Suc (length pathParts)] m
              else if pathIdx \<ge> length pathParts then Some (False, m)
              else if \<not> gm (patternParts ! patternIdx) (pathParts ! pathIdx) then Some (False, m)
              else match_memo gm patternParts pathParts (patternIdx + 1) (pathIdx + 1) m)
           of
             None \<Rightarrow> None
           | Some (res, m') \<Rightarrow> Some (res, m'((patternIdx, pathIdx) \<mapsto> res))))"
  by pat_completeness auto
termination
  by (relation "measure (\<lambda>(gm, patternParts, pathParts, patternIdx, pathIdx, m). length patternParts - patternIdx)")
     auto

declare match_memo.simps [simp del]

definition Match :: "string \<Rightarrow> string \<Rightarrow> bool option" where
  "Match pattern path =
     (let patternParts = Split (ToSlash pattern) (CHR ''/'');
          pathParts = Split (ToSlash path) (CHR ''/'')
      in map_option fst (match_memo filepath_Match patternParts pathParts 0 0 Map.empty))"

text \<open>
  The specification of the matcher, in the words of the claim: a \<open>**\<close> segment stands for zero
  or more whole path segments, any other pattern segment must match the next path segment
  under the one-segment matcher, and the pattern and the path must end together.
\<close>

fun segment_match :: "(string \<Rightarrow> string \<Rightarrow> bool) \<Rightarrow> string list \<Rightarrow> string list \<Rightarrow> bool" where
  "segment_match gm [] ps = (ps = [])"
| "segment_match gm (p # pats) ps =
     (if p = ''**'' then (\<exists>k \<in> {0 .. length ps}. segment_match gm pats (drop k ps))
      else (case ps of [] \<Rightarrow> False | q # qs \<Rightarrow> gm p q \<and> segment_match gm pats qs))"

text \<open>
  The standard glob rules for one segment, as a specification: \<open>*\<close> stands for any run of
  characters other than the separator, \<open>?\<close> for one such character, and every other
  byte of the pattern for itself.  A character of the name is one rune: \<open>rune_width\<close> is
  the number of bytes of the first one.  \<open>ascii\<close> holds for the strings whose characters
  are single bytes.
\<close>

definition ascii :: "string \<Rightarrow> bool" where
  "ascii s = list_all (\<lambda>c. (of_char c :: int) < 128) s"

definition rune_width :: "string \<Rightarrow> nat" where
  "rune_width s = snd (DecodeRuneInString s)"

lemma rune_width_bounds: "s \<noteq> [] \<Longrightarrow> 1 \<le> rune_width s \<and> rune_width s \<le> length s"
  using DecodeRuneInString_width [of s "fst (DecodeRuneInString s)" "snd (DecodeRuneInString s)"]
  by (simp add: rune_width_def)

function glob :: "string \<Rightarrow> string \<Rightarrow> bool" where
  "glob pattern name =
     (case pattern of
        [] \<Rightarrow> name = []
      | p # ps \<Rightarrow>
          if p = CHR ''*'' then
            (if glob ps name then True
             else if name = [] \<or> hd name = Separator then False
             else glob pattern (drop (rune_width name) name))
          else if name = [] then False
          else if p = CHR ''?'' then
            hd name \<noteq> Separator \<and> glob ps (drop (rune_width name) name)
          else hd name = p \<and> glob ps (tl name))"
  by pat_completeness auto
termination
proof (relation "measure (\<lambda>(pattern, name). length pattern + length name)", goal_cases)
  case (3 pattern name p ps)
  then show ?case using rune_width_bounds [of name] by auto
qed auto

declare glob.simps [simp del]

text \<open>
  \<open>chunk_at chunk s\<close>: the chunk (bytes and \<open>?\<close>) matches the first bytes of \<open>s\<close>, one byte
  for each \<open>?\<close>; \<open>ok_at chunk last_chunk s j\<close>: the position \<open>j\<close> of \<open>s\<close> is one that the loop
  after a star accepts.
\<close>

fun chunk_at :: "string \<Rightarrow> string \<Rightarrow> bool" where
  "chunk_at [] s = True"
| "chunk_at (p # ps) [] = False"
| "chunk_at (p # ps) (c # cs) = ((p = CHR ''?'' \<or> p = c) \<and> chunk_at ps cs)"

definition ok_at :: "string \<Rightarrow> bool \<Rightarrow> string \<Rightarrow> nat \<Rightarrow> bool" where
  "ok_at chunk last_chunk s j =
     (chunk_at chunk (drop j s) \<and> \<not> (last_chunk \<and> drop (j + length chunk) s \<noteq> []))"

section \<open>Package path/filepath: Clean and Join on Windows\<close>

text \<open>
  \<open>filepath.Clean\<close> and \<open>filepath.Join\<close> in the Windows build of the Go standard library
  (the algorithm of Go 1.22 and later).  A path is a volume name followed by the rest;
  \<open>Clean\<close> rewrites the rest into a buffer and keeps the volume name.
\<close>

definition IsPathSeparator :: "char \<Rightarrow> bool" where
  "IsPathSeparator c = (c = bs \<or> c = CHR ''/'')"

definition upper_char :: "char \<Rightarrow> char" where
  "upper_char c = (if is_lower c then char_of (of_char c - (32::nat)) else c)"

text \<open>\<open>pathHasPrefixFold\<close>: case-insensitive prefix test in which all separators are equal.\<close>

fun prefix_fold_at :: "string \<Rightarrow> string \<Rightarrow> bool" where
  "prefix_fold_at s [] = True"
| "prefix_fold_at [] (p # ps) = False"
| "prefix_fold_at (c # s) (p # ps) =
     ((if IsPathSeparator p then IsPathSeparator c else upper_char p = upper_char c)
      \<and> prefix_fold_at s ps)"

definition pathHasPrefixFold :: "string \<Rightarrow> string \<Rightarrow> bool" where
  "pathHasPrefixFold s p =
     (length p \<le> length s \<and> prefix_fold_at s p
      \<and> \<not> (length s > length p \<and> \<not> IsPathSeparator (s ! length p)))"

text \<open>\<open>uncLen path prefixLen\<close>: the index of the second separator at or after \<open>prefixLen\<close>.\<close>

fun unc_scan :: "string \<Rightarrow> nat \<Rightarrow> nat \<Rightarrow> nat" where
  "unc_scan [] i count = i"
| "unc_scan (c # cs) i count =
     (if IsPathSeparator c then
        (if Suc count = 2 then i else unc_scan cs (Suc i) (Suc count))
      else unc_scan cs (Suc i) count)"

definition uncLen :: "string \<Rightarrow> nat \<Rightarrow> nat" where
  "uncLen path prefixLen = unc_scan (drop prefixLen path) prefixLen 0"

text \<open>\<open>cutPath\<close>: the text after the first separator, when there is one.\<close>

fun cutPath_after :: "string \<Rightarrow> string option" where
  "cutPath_after [] = None"
| "cutPath_after (c # cs) = (if IsPathSeparator c then Some cs else cutPath_after cs)"

definition volumeNameLen :: "string \<Rightarrow> nat" where
  "volumeNameLen path =
     (if length path \<ge> 2 \<and> path ! 1 = CHR '':'' then 2
      else if length path = 0 \<or> \<not> IsPathSeparator (path ! 0) then 0
      else if pathHasPrefixFold path ([bs, bs] @ ''.'' @ [bs] @ ''UNC'') then uncLen path 8
      else if pathHasPrefixFold path ([bs, bs] @ ''.'') \<or> pathHasPrefixFold path ([bs, bs] @ ''?'')
              \<or> pathHasPrefixFold path ([bs] @ ''??'') then
        (if length path = 3 then 3
         else (case cutPath_after (drop 4 path) of
                 None \<Rightarrow> length path
               | Some rest \<Rightarrow> length path - length rest - 1))
      else if length path \<ge> 2 \<and> IsPathSeparator (path ! 1) then uncLen path 2
      else 0)"

text \<open>
  The lazy buffer of \<open>Clean\<close>, with the fields \<open>buf\<close> and \<open>w\<close>: \<open>lb_buf\<close> is \<open>None\<close>
  while the Go slice is nil, and then the bytes written so far are \<open>path[:w]\<close>;
  afterwards it holds \<open>len(path)\<close> bytes, of which the first \<open>w\<close> are the output.  The
  bytes from \<open>w\<close> on are zero or left over from elements that a \<open>..\<close> took back;
  \<open>postClean\<close> reads them too.  \<open>Clean\<close> writes at most as many bytes as it has read, so
  \<open>buf[w]\<close> is in range when \<open>append\<close> writes it.
\<close>

record lazybuf =
  lb_buf :: "string option"
  lb_w :: nat

definition lb_index :: "string \<Rightarrow> lazybuf \<Rightarrow> nat \<Rightarrow> char" where
  "lb_index path b i = (case lb_buf b of None \<Rightarrow> path ! i | Some bf \<Rightarrow> bf ! i)"

definition lb_append :: "string \<Rightarrow> lazybuf \<Rightarrow> char \<Rightarrow> lazybuf" where
  "lb_append path b c =
     (case lb_buf b of
        None \<Rightarrow>
          if lb_w b < length path \<and> path ! lb_w b = c then b\<lparr>lb_w := lb_w b + 1\<rparr>
          else
            \<lparr>lb_buf = Some ((take (lb_w b) path
                               @ replicate (length path - lb_w b) (CHR 0x00))[lb_w b := c]),
             lb_w = lb_w b + 1\<rparr>
      | Some bf \<Rightarrow> \<lparr>lb_buf = Some (bf[lb_w b := c]), lb_w = lb_w b + 1\<rparr>)"

definition lb_append_all :: "string \<Rightarrow> lazybuf \<Rightarrow> string \<Rightarrow> lazybuf" where
  "lb_append_all path b cs = foldl (lb_append path) b cs"

definition lb_string :: "string \<Rightarrow> lazybuf \<Rightarrow> string" where
  "lb_string path b = (case lb_buf b of None \<Rightarrow> take (lb_w b) path | Some bf \<Rightarrow> take (lb_w b) bf)"

text \<open>
  The loop of the \<open>..\<close> case, after \<open>out.w--\<close>: it moves \<open>w\<close> back to the last separator,
  but not below \<open>dotdot\<close>.
\<close>

function backtrack :: "string \<Rightarrow> lazybuf \<Rightarrow> nat \<Rightarrow> nat \<Rightarrow> nat" where
  "backtrack path b dotdot i =
     (if i > dotdot \<and> \<not> IsPathSeparator (lb_index path b i) then backtrack path b dotdot (i - 1)
      else i)"
  by pat_completeness auto
termination
  by (relation "measure (\<lambda>(path, b, dotdot, i). i)") auto

declare backtrack.simps [simp del]

text \<open>
  The main loop of \<open>Clean\<close>; \<open>rest\<close> is \<open>path[r:]\<close>.  The cases are those of the
  \<open>switch\<close>: an empty element, a \<open>.\<close> element, a \<open>..\<close> element, a real element.
\<close>

function clean_loop :: "string \<Rightarrow> bool \<Rightarrow> string \<Rightarrow> lazybuf \<Rightarrow> nat \<Rightarrow> lazybuf" where
  "clean_loop path rooted rest b dotdot =
     (if rest = [] then b
      else if IsPathSeparator (rest ! 0) then clean_loop path rooted (tl rest) b dotdot
      else if rest ! 0 = CHR ''.'' \<and> (length rest = 1 \<or> IsPathSeparator (rest ! 1)) then
        clean_loop path rooted (tl rest) b dotdot
      else if rest ! 0 = CHR ''.'' \<and> rest ! 1 = CHR ''.''
              \<and> (length rest = 2 \<or> IsPathSeparator (rest ! 2)) then
        (if lb_w b > dotdot then
           clean_loop path rooted (drop 2 rest)
             (b\<lparr>lb_w := backtrack path b dotdot (lb_w b - 1)\<rparr>) dotdot
         else if \<not> rooted then
           (let b1 = (if lb_w b > 0 then lb_append path b Separator else b);
                b2 = lb_append path (lb_append path b1 (CHR ''.'')) (CHR ''.'')
            in clean_loop path rooted (drop 2 rest) b2 (lb_w b2))
         else clean_loop path rooted (drop 2 rest) b dotdot)
      else
        (let b1 = (if rooted \<and> lb_w b \<noteq> 1 \<or> \<not> rooted \<and> lb_w b \<noteq> 0
                   then lb_append path b Separator else b);
             b2 = lb_append_all path b1 (takeWhile (\<lambda>c. \<not> IsPathSeparator c) rest)
         in clean_loop path rooted (dropWhile (\<lambda>c. \<not> IsPathSeparator c) rest) b2 dotdot))"
  by pat_completeness auto
termination
proof (relation "measure (\<lambda>(path, rooted, rest, b, dotdot). length rest)", goal_cases)
  case (7 path rooted rest b dotdot x xa)
  then have "rest \<noteq> []" "\<not> IsPathSeparator (hd rest)" by (simp_all add: hd_conv_nth)
  then have "length (dropWhile (\<lambda>c. \<not> IsPathSeparator c) rest) < length rest"
    by (cases rest) (auto simp: le_imp_less_Suc length_dropWhile_le)
  then show ?case by simp
qed auto

declare clean_loop.simps [simp del]

text \<open>
  \<open>postClean\<close>: when the path has no volume and the buffer is not nil, a colon before the
  first separator of the buffer gets \<open>.\\<close> in front of the path, and a buffer that starts
  with \<open>\??\<close> gets \<open>\.\<close> in front.  Both tests read the whole buffer, not only the
  first \<open>w\<close> bytes.
\<close>

definition postClean :: "nat \<Rightarrow> lazybuf \<Rightarrow> lazybuf" where
  "postClean volLen b =
     (if volLen \<noteq> 0 then b
      else
        (case lb_buf b of
           None \<Rightarrow> b
         | Some bf \<Rightarrow>
             if CHR '':'' \<in> set (takeWhile (\<lambda>c. \<not> IsPathSeparator c) bf) then
               \<lparr>lb_buf = Some (CHR ''.'' # Separator # bf), lb_w = lb_w b + 2\<rparr>
             else if length bf \<ge> 3 \<and> IsPathSeparator (bf ! 0)
                     \<and> bf ! 1 = CHR ''?'' \<and> bf ! 2 = CHR ''?'' then
               \<lparr>lb_buf = Some (Separator # CHR ''.'' # bf), lb_w = lb_w b + 2\<rparr>
             else b))"

definition filepath_Clean :: "string \<Rightarrow> string" where
  "filepath_Clean originalPath =
     (let volLen = volumeNameLen originalPath;
          path = drop volLen originalPath
      in if path = [] then
           (if volLen > 1 \<and> IsPathSeparator (originalPath ! 0) \<and> IsPathSeparator (originalPath ! 1)
            then FromSlash originalPath
            else originalPath @ ''.'')
         else
           (let rooted = IsPathSeparator (path ! 0);
                b0 = \<lparr>lb_buf = None, lb_w = 0\<rparr>;
                b1 = (if rooted then lb_append path b0 Separator else b0);
                b2 = clean_loop path rooted (if rooted then tl path else path) b1 (if rooted then 1 else 0);
                b3 = (if lb_w b2 = 0 then lb_append path b2 (CHR ''.'') else b2);
                b4 = postClean volLen b3
            in FromSlash (take volLen originalPath @ lb_string path b4)))"

text \<open>
  \<open>filepath.Join\<close>: \<open>join_step\<close> is one round of the loop over the elements, on the builder
  \<open>b\<close> (its last byte is \<open>lastChar\<close>).
\<close>

definition join_step :: "string \<Rightarrow> string \<Rightarrow> string" where
  "join_step b e0 =
     (if length b = 0 then b @ e0
      else if IsPathSeparator (last b) then
        (let e = dropWhile IsPathSeparator e0;
             b1 = (if length b = 1 \<and> HasPrefix e ''??'' \<and> (length e = 2 \<or> IsPathSeparator (e ! 2))
                   then b @ ''.'' @ [bs] else b)
         in b1 @ e)
      else if last b = CHR '':'' then b @ e0
      else if length e0 > 0 then b @ [bs] @ e0
      else b @ [bs])"

definition filepath_Join :: "string list \<Rightarrow> string" where
  "filepath_Join elem =
     (let b = foldl join_step [] elem
      in if length b = 0 then [] else filepath_Clean b)"

section \<open>Package ntpath: Clean, Parts, Drive, Root, Anchor\<close>

definition count_char :: "char \<Rightarrow> string \<Rightarrow> nat" where
  "count_char c s = length (filter (\<lambda>x. x = c) s)"

definition Clean :: "string \<Rightarrow> string" where
  "Clean path0 =
     (let p1 = filepath_Clean path0;
          p2 = ReplaceAll p1 (CHR ''/'') bs;
          p3 = (if HasPrefix p2 [bs, bs] \<and> count_char bs p2 = 3 \<and> \<not> HasSuffix p2 [bs]
                then p2 @ [bs] else p2);
          p4 = (if length p3 \<ge> 2 \<and> p3 ! 1 = CHR '':'' \<and> HasSuffix p3 ''.''
                then TrimSuffix p3 ''.'' else p3)
      in p4)"

text \<open>
  The regular expressions of the package, as functions that return the matched prefix:
  \<open>regUNC\<close> is \<open>^\\\\[^\\]+\\[^\\]+\\\<close>, \<open>regDrive\<close> is \<open>(?i)^[A-Z]:\\?\<close>;
  \<open>has_drive\<close> is \<open>(?i)^[A-Z]:\<close> and \<open>has_drive_root\<close> is \<open>(?i)^[A-Z]:\\\<close>.  Under
  the flag \<open>i\<close> the class \<open>[A-Z]\<close> of Go's \<open>regexp\<close> holds the ASCII letters and the two
  other runes that fold to one: the long s \<open>U+017F\<close> (bytes C5 BF) and the Kelvin sign
  \<open>U+212A\<close> (bytes E2 84 AA).  \<open>drive_letter_len\<close> is the length in bytes of such a rune
  at the start of the string, or 0.
\<close>

definition regUNC :: "string \<Rightarrow> string option" where
  "regUNC path =
     (let host = takeWhile (\<lambda>c. c \<noteq> bs) (drop 2 path);
          r1 = drop (2 + length host) path;
          share = takeWhile (\<lambda>c. c \<noteq> bs) (drop 1 r1);
          r2 = drop (1 + length share) r1
      in if HasPrefix path [bs, bs] \<and> host \<noteq> [] \<and> HasPrefix r1 [bs]
            \<and> share \<noteq> [] \<and> HasPrefix r2 [bs]
         then Some (take (2 + length host + 1 + length share + 1) path)
         else None)"

definition drive_letter_len :: "string \<Rightarrow> nat" where
  "drive_letter_len s =
     (if s \<noteq> [] \<and> is_letter (s ! 0) then 1
      else if HasPrefix s [CHR 0xC5, CHR 0xBF] then 2
      else if HasPrefix s [CHR 0xE2, CHR 0x84, CHR 0xAA] then 3
      else 0)"

definition has_drive :: "string \<Rightarrow> bool" where
  "has_drive s =
     (drive_letter_len s > 0 \<and> length s > drive_letter_len s
      \<and> s ! drive_letter_len s = CHR '':'')"

definition has_drive_root :: "string \<Rightarrow> bool" where
  "has_drive_root s =
     (has_drive s \<and> length s > drive_letter_len s + 1 \<and> s ! (drive_letter_len s + 1) = bs)"

definition regDrive :: "string \<Rightarrow> string option" where
  "regDrive path =
     (if has_drive path then
        Some (take (drive_letter_len path + (if has_drive_root path then 2 else 1)) path)
      else None)"

definition Parts :: "string \<Rightarrow> string list" where
  "Parts path0 =
     (if path0 = ''.'' then []
      else
        let path = Clean path0 in
        case regUNC path of
          Some anchor \<Rightarrow>
            if length path = length anchor then [anchor]
            else anchor # Split (drop (length anchor) path) bs
        | None \<Rightarrow>
            (case regDrive path of
               Some anchor \<Rightarrow>
                 if length path = length anchor then [anchor]
                 else anchor # Split (drop (length anchor) path) bs
             | None \<Rightarrow>
                 if HasPrefix path [bs] then
                   (if length path = 1 then [[bs]] else [bs] # Split (drop 1 path) bs)
                 else Split path bs))"

definition Drive :: "string \<Rightarrow> string" where
  "Drive path =
     (let parts = Parts path in
      if length parts = 0 then []
      else
        let first = parts ! 0 in
        if HasPrefix first [bs, bs] then TrimSuffix first [bs]
        else if length first \<ge> 2 \<and> first ! 1 = CHR '':'' then TrimSuffix first [bs]
        else [])"

definition Root :: "string \<Rightarrow> string" where
  "Root path =
     (let parts = Parts path in
      if length parts = 0 then []
      else
        let first = parts ! 0 in
        if HasPrefix first [bs, bs] then [bs]
        else if length first \<ge> 2 \<and> first ! 1 = CHR '':'' \<and> HasSuffix first [bs] then [bs]
        else if first = [bs] then [bs]
        else [])"

definition Anchor :: "string \<Rightarrow> string" where
  "Anchor path = Drive path @ Root path"

section \<open>Package purepath: PureWindowsPath\<close>

text \<open>
  A \<open>PureWindowsPath\<close> is a struct with the one field \<open>path\<close>; the model is that string.
  \<open>merge_segment\<close> is the body of the loop of \<open>NewPureWindowsPath\<close> over \<open>segments[1:]\<close>.
\<close>

type_synonym PureWindowsPath = string

definition merge_segment :: "string \<Rightarrow> string \<Rightarrow> string" where
  "merge_segment path seg0 =
     (let seg = Clean seg0 in
      if HasPrefix seg [bs, bs] then seg
      else if has_drive seg then
        (let drive = take 2 seg in
         if length seg \<ge> 3 \<and> seg ! 2 = bs then seg
         else if HasPrefix path drive then filepath_Join [path, drop 2 seg]
         else seg)
      else if HasPrefix seg [bs] then
        (if has_drive_root path then take 2 path @ seg else seg)
      else filepath_Join [path, seg])"

definition NewPureWindowsPath :: "string list \<Rightarrow> PureWindowsPath" where
  "NewPureWindowsPath segments =
     (if length segments = 0 then ''.''
      else if length segments = 1 \<and> (segments ! 0 = [] \<or> segments ! 0 = ''.'') then ''.''
      else Clean (foldl merge_segment (Clean (segments ! 0)) (tl segments)))"

definition Join :: "PureWindowsPath \<Rightarrow> string list \<Rightarrow> PureWindowsPath" where
  "Join p segments = NewPureWindowsPath (p # segments)"

definition Parent :: "PureWindowsPath \<Rightarrow> PureWindowsPath" where
  "Parent p =
     (let anchor = Anchor p; parts = Parts p in
      if length parts = 0 then NewPureWindowsPath [''.'']
      else if length parts = 1 then
        (if anchor \<noteq> [] then NewPureWindowsPath [parts ! 0] else NewPureWindowsPath [''.''])
      else
        let newParts = butlast parts;
            newPath = (if anchor = [] then Join_strings newParts [bs]
                       else parts ! 0 @ Join_strings (tl newParts) [bs])
        in NewPureWindowsPath [newPath])"









definition IsRelTo :: "PureWindowsPath \<Rightarrow> PureWindowsPath \<Rightarrow> bool \<Rightarrow> bool" where
  "IsRelTo p other isWalkUp =
     (let pPath = ToLower p; otherPath = ToLower other;
          pAnchor = ToLower (Anchor p); otherAnchor = ToLower (Anchor other)
      in if pAnchor \<noteq> [] then
           (if isWalkUp then pAnchor = otherAnchor
            else HasPrefix pPath otherPath \<and> pAnchor = otherAnchor)
         else
           (if otherAnchor \<noteq> [] then False
            else otherPath = ''.'' \<or> HasPrefix pPath otherPath))"

text \<open>
  \<open>RelTo\<close> returns a path, fails with a sentinel, or stops the process with a run-time
  panic: the loop that counts the common prefix reads \<open>parts[i]\<close> for every
  \<open>i < len(otherParts)\<close>, and Go panics when \<open>i\<close> is not below \<open>len(parts)\<close>.
\<close>

datatype 'a outcome = Value 'a | Failure error | Panic

function common_prefix :: "string list \<Rightarrow> string list \<Rightarrow> nat \<Rightarrow> nat \<Rightarrow> nat option" where
  "common_prefix parts otherParts i commonLength =
     (if i < length otherParts then
        (if i \<ge> length parts then None
         else if \<not> EqualFold (parts ! i) (otherParts ! i) then Some commonLength
         else common_prefix parts otherParts (i + 1) (commonLength + 1))
      else Some commonLength)"
  by pat_completeness auto
termination
  by (relation "measure (\<lambda>(parts, otherParts, i, commonLength). length otherParts - i)") auto

declare common_prefix.simps [simp del]

definition RelTo :: "PureWindowsPath \<Rightarrow> PureWindowsPath \<Rightarrow> bool \<Rightarrow> PureWindowsPath outcome" where
  "RelTo p other isWalkUp =
     (if \<not> IsRelTo p other isWalkUp then Failure ErrNotRelative
      else
        let parts = Parts p; otherParts = Parts other in
        case common_prefix parts otherParts 0 0 of
          None \<Rightarrow> Panic
        | Some commonLength \<Rightarrow>
            if \<not> isWalkUp then Value (NewPureWindowsPath (drop commonLength parts))
            else
              let upLevels = length otherParts - commonLength;
                  upSegments = replicate upLevels ''..''
              in Value (NewPureWindowsPath (upSegments @ drop commonLength parts)))"

section \<open>Package path: the filesystem capability and WindowsPath\<close>

text \<open>
  The operating system is a record of the functions the walk calls: \<open>filepath.Abs\<close>,
  \<open>os.Lstat\<close> (the kind of the entry, without following a link), \<open>os.Readlink\<close> and
  \<open>os.ReadDir\<close> (the entry names); \<open>None\<close> is an error.  The functions are fixed during
  one walk: the callback does not change the filesystem.  A \<open>WindowsPath\<close> wraps a
  \<open>BasePath\<close>, which wraps a \<open>PureWindowsPath\<close>; the model is its path string.  The
  methods of \<open>BasePath\<close> convert between the two kinds of path by building a new path
  from the string: \<open>FromPurePath\<close> and \<open>ToPurePath\<close>.
\<close>

datatype file_kind = Regular | Directory | Symlink | Irregular

record filesystem =
  fs_abs :: "string \<Rightarrow> string option"
  fs_lstat :: "string \<Rightarrow> file_kind option"
  fs_readlink :: "string \<Rightarrow> string option"
  fs_readdir :: "string \<Rightarrow> string list option"

type_synonym WindowsPath = string

definition NewWindowsPath :: "string list \<Rightarrow> WindowsPath" where
  "NewWindowsPath segments = NewPureWindowsPath segments"

definition FromPurePath :: "PureWindowsPath \<Rightarrow> WindowsPath" where
  "FromPurePath purePath = NewWindowsPath [purePath]"

definition ToPurePath :: "WindowsPath \<Rightarrow> PureWindowsPath" where
  "ToPurePath p = NewPureWindowsPath [p]"

definition BasePath_Join :: "WindowsPath \<Rightarrow> string list \<Rightarrow> WindowsPath" where
  "BasePath_Join p segments = FromPurePath (Join p segments)"

definition BasePath_IsRelTo :: "WindowsPath \<Rightarrow> WindowsPath \<Rightarrow> bool \<Rightarrow> bool" where
  "BasePath_IsRelTo p other walkUp = IsRelTo p (ToPurePath other) walkUp"

definition ToAbs :: "filesystem \<Rightarrow> WindowsPath \<Rightarrow> WindowsPath option" where
  "ToAbs fs p =
     (case fs_abs fs p of None \<Rightarrow> None | Some absPath \<Rightarrow> Some (NewWindowsPath [absPath]))"

definition ReadLink :: "filesystem \<Rightarrow> WindowsPath \<Rightarrow> WindowsPath option" where
  "ReadLink fs p =
     (case fs_readlink fs p of None \<Rightarrow> None | Some target \<Rightarrow> Some (NewWindowsPath [target]))"

definition Resolve :: "filesystem \<Rightarrow> WindowsPath \<Rightarrow> WindowsPath option" where
  "Resolve fs p = (case ToAbs fs p of None \<Rightarrow> None | Some absPath \<Rightarrow> ReadLink fs absPath)"

definition IsLink :: "filesystem \<Rightarrow> WindowsPath \<Rightarrow> bool" where
  "IsLink fs p = (fs_lstat fs p = Some Symlink)"

text \<open>\<open>IsDir(false)\<close>: the entry itself is a directory (\<open>Lstat\<close>, links are not followed).\<close>

definition IsDir_nofollow :: "filesystem \<Rightarrow> WindowsPath \<Rightarrow> bool" where
  "IsDir_nofollow fs p = (fs_lstat fs p = Some Directory)"

definition join_entry :: "WindowsPath \<Rightarrow> string \<Rightarrow> WindowsPath" where
  "join_entry p name = BasePath_Join p [name]"

definition ReadDir :: "filesystem \<Rightarrow> WindowsPath \<Rightarrow> WindowsPath list option" where
  "ReadDir fs p =
     (case fs_readdir fs p of None \<Rightarrow> None | Some entries \<Rightarrow> Some (map (join_entry p) entries))"

section \<open>Package path: Walk\<close>

text \<open>
  The error values of the walk: the sentinels \<open>WalkSkip\<close> and \<open>WalkStop\<close>, the conditions
  the walk itself reports, and any other error a callback returns.  The callback is a
  function of its own state (the variables its closure captures), the path and the
  condition; it returns an error or \<open>None\<close> for nil.
\<close>

datatype walk_error =
    WalkSkip | WalkStop | ErrWalkCycle | ErrToAbs | ErrResolve | ErrReadDir | CallbackError nat

type_synonym 's callback = "'s \<Rightarrow> WindowsPath \<Rightarrow> walk_error option \<Rightarrow> walk_error option \<times> 's"

definition shouldStopWalk :: "walk_error option \<Rightarrow> bool" where
  "shouldStopWalk err = (err \<noteq> None \<and> err \<noteq> Some WalkSkip)"

text \<open>
  The state of one walk: the map \<open>visited\<close> (0 absent, 1 in progress, 2 done), the state
  of the callback, and a history that is written and never read: \<open>Enter k\<close> when the
  guarded part of \<open>walkRecursively\<close> starts for the key \<open>k\<close>, and \<open>Callback k p c\<close> for
  each call of the callback on path \<open>p\<close> with condition \<open>c\<close>, where \<open>k\<close> is the key of the
  running invocation, if it has one.
\<close>

datatype event = Enter string | Callback "string option" WindowsPath "walk_error option"

record 's walk_state =
  visited :: "string \<Rightarrow> nat"
  cb_state :: 's
  history :: "event list"

definition call_fn ::
  "'s callback \<Rightarrow> string option \<Rightarrow> WindowsPath \<Rightarrow> walk_error option \<Rightarrow> 's walk_state
     \<Rightarrow> walk_error option \<times> 's walk_state" where
  "call_fn fn key p cond st =
     (case fn (cb_state st) p cond of
        (err, s') \<Rightarrow> (err, st\<lparr>cb_state := s', history := history st @ [Callback key p cond]\<rparr>))"

definition mark :: "string \<Rightarrow> nat \<Rightarrow> 's walk_state \<Rightarrow> 's walk_state" where
  "mark pathKey v st = st\<lparr>visited := (visited st)(pathKey := v)\<rparr>"

definition enter :: "string \<Rightarrow> 's walk_state \<Rightarrow> 's walk_state" where
  "enter pathKey st = (mark pathKey 1 st)\<lparr>history := history st @ [Enter pathKey]\<rparr>"

text \<open>
  \<open>link_step\<close> is the block of \<open>walkRecursively\<close> that resolves a symbolic link: it
  returns early through the callback (\<open>Inl\<close>) or gives the path to go on with (\<open>Inr\<close>).
\<close>

definition link_step ::
  "filesystem \<Rightarrow> 's callback \<Rightarrow> bool \<Rightarrow> WindowsPath \<Rightarrow> WindowsPath \<Rightarrow> 's walk_state
     \<Rightarrow> (walk_error option \<times> 's walk_state) + WindowsPath" where
  "link_step fs fn follow root rootAbs st =
     (if follow \<and> IsLink fs root then
        (case Resolve fs root of
           None \<Rightarrow> Inl (call_fn fn (Some rootAbs) root (Some ErrResolve) st)
         | Some target \<Rightarrow>
             if BasePath_IsRelTo rootAbs target False
             then Inl (call_fn fn (Some rootAbs) rootAbs (Some ErrWalkCycle) st)
             else Inr target)
      else Inr root)"

text \<open>
  \<open>walkRecursively\<close> and its loop over the children are one recursive function:
  \<open>Node root\<close> is the call \<open>walkRecursively(root, ...)\<close>, \<open>Children cs\<close> is the rest of the
  loop \<open>for _, child := range children\<close>.  The result \<open>None\<close> is a walk that does not
  return.  The deferred assignment \<open>visited[pathKey] = 2\<close> runs on every return after the
  key was marked.
\<close>

datatype walk_arg = Node WindowsPath | Children "WindowsPath list"

partial_function (option) walkRecursively ::
  "filesystem \<Rightarrow> 's callback \<Rightarrow> bool \<Rightarrow> walk_arg \<Rightarrow> 's walk_state
     \<Rightarrow> (walk_error option \<times> 's walk_state) option" where
  "walkRecursively fs fn follow arg st =
     (case arg of
        Children [] \<Rightarrow> Some (None, st)
      | Children (child # rest) \<Rightarrow>
          Option.bind (walkRecursively fs fn follow (Node child) st)
            (\<lambda>(err, st'). if shouldStopWalk err then Some (err, st')
                           else walkRecursively fs fn follow (Children rest) st')
      | Node root \<Rightarrow>
          (case ToAbs fs root of
             None \<Rightarrow> Some (call_fn fn None root (Some ErrToAbs) st)
           | Some rootAbs \<Rightarrow>
               if visited st rootAbs = 1 then
                 Some (call_fn fn None rootAbs (Some ErrWalkCycle) st)
               else if visited st rootAbs = 2 then Some (None, st)
               else
                 Option.bind
                   (case link_step fs fn follow root rootAbs (enter rootAbs st) of
                      Inl res \<Rightarrow> Some res
                    | Inr root' \<Rightarrow>
                        (case call_fn fn (Some rootAbs) root' None (enter rootAbs st) of
                           (err, st2) \<Rightarrow>
                             if shouldStopWalk err then Some (err, st2)
                             else if \<not> IsDir_nofollow fs root' then Some (None, st2)
                             else if err = Some WalkSkip then Some (None, st2)
                             else
                               (case ReadDir fs root' of
                                  None \<Rightarrow> Some (call_fn fn (Some rootAbs) root' (Some ErrReadDir) st2)
                                | Some children \<Rightarrow>
                                    walkRecursively fs fn follow (Children children) st2)))
                   (\<lambda>(err, st'). Some (err, mark rootAbs 2 st'))))"

declare walkRecursively.simps [code]

definition Walk ::
  "filesystem \<Rightarrow> 's callback \<Rightarrow> bool \<Rightarrow> WindowsPath \<Rightarrow> 's
     \<Rightarrow> (walk_error option \<times> 's walk_state) option" where
  "Walk fs fn isFollow root s0 =
     walkRecursively fs fn isFollow (Node root)
       \<lparr>visited = (\<lambda>k. 0), cb_state = s0, history = []\<rparr>"

section \<open>Notions for the claims about Walk\<close>

fun entered :: "event list \<Rightarrow> string list" where
  "entered [] = []"
| "entered (Enter k # es) = k # entered es"
| "entered (Callback key p cond # es) = entered es"

fun nil_keys :: "event list \<Rightarrow> string list" where
  "nil_keys [] = []"
| "nil_keys (Callback (Some k) p None # es) = k # nil_keys es"
| "nil_keys (e # es) = nil_keys es"

text \<open>
  \<open>nil_paths\<close>: the paths the callback got with the nil condition, in order.
  \<open>nil_own fs es\<close>: each of these calls was made for a key, and the key is the absolute
  form of the path of the call.
\<close>

fun nil_paths :: "event list \<Rightarrow> WindowsPath list" where
  "nil_paths [] = []"
| "nil_paths (Callback key p None # es) = p # nil_paths es"
| "nil_paths (e # es) = nil_paths es"

fun own_event :: "filesystem \<Rightarrow> event \<Rightarrow> bool" where
  "own_event fs (Enter k) = True"
| "own_event fs (Callback key p (Some c)) = True"
| "own_event fs (Callback key p None) = (key \<noteq> None \<and> ToAbs fs p = key)"

definition nil_own :: "filesystem \<Rightarrow> event list \<Rightarrow> bool" where
  "nil_own fs es = list_all (own_event fs) es"

definition fresh :: "'s walk_state \<Rightarrow> string \<Rightarrow> bool" where
  "fresh st k = (visited st k \<noteq> 1 \<and> visited st k \<noteq> 2)"

text \<open>
  \<open>extends st st' new\<close>: the walk went from \<open>st\<close> to \<open>st'\<close> and wrote the events \<open>new\<close>;
  each key was entered at most once and was fresh before, the keys that are not fresh
  afterwards are the old ones and the entered ones, and the callback got a nil condition
  at most once per key, each time for an entered key.
\<close>

definition extends :: "'s walk_state \<Rightarrow> 's walk_state \<Rightarrow> event list \<Rightarrow> bool" where
  "extends st st' new =
     (history st' = history st @ new
      \<and> distinct (entered new)
      \<and> (\<forall>k \<in> set (entered new). fresh st k)
      \<and> (\<forall>k. fresh st' k = (fresh st k \<and> k \<notin> set (entered new)))
      \<and> distinct (nil_keys new)
      \<and> set (nil_keys new) \<subseteq> set (entered new))"

definition walk_inv :: "'s walk_state \<Rightarrow> 's walk_state \<Rightarrow> bool" where
  "walk_inv st st' = (\<exists>new. extends st st' new)"

text \<open>
  \<open>next_root\<close>: the path \<open>walkRecursively\<close> goes on with after the link block, if it does.
  \<open>walk_closed fs follow ps\<close>: the list \<open>ps\<close> of paths is closed under the steps of the walk;
  the children the walk lists for a path of \<open>ps\<close> are in \<open>ps\<close>.  A finite filesystem has such
  a list for each root.
\<close>

definition next_root :: "filesystem \<Rightarrow> bool \<Rightarrow> WindowsPath \<Rightarrow> WindowsPath \<Rightarrow> WindowsPath option" where
  "next_root fs follow root rootAbs =
     (if follow \<and> IsLink fs root then
        (case Resolve fs root of
           None \<Rightarrow> None
         | Some target \<Rightarrow> if BasePath_IsRelTo rootAbs target False then None else Some target)
      else Some root)"

definition children_of :: "filesystem \<Rightarrow> bool \<Rightarrow> WindowsPath \<Rightarrow> WindowsPath list" where
  "children_of fs follow p =
     (case ToAbs fs p of
        None \<Rightarrow> []
      | Some rootAbs \<Rightarrow>
          (case next_root fs follow p rootAbs of
             None \<Rightarrow> []
           | Some root' \<Rightarrow>
               if IsDir_nofollow fs root' then
                 (case ReadDir fs root' of None \<Rightarrow> [] | Some children \<Rightarrow> children)
               else []))"

definition walk_closed :: "filesystem \<Rightarrow> bool \<Rightarrow> WindowsPath list \<Rightarrow> bool" where
  "walk_closed fs follow ps = list_all (\<lambda>p. list_all (\<lambda>c. c \<in> set ps) (children_of fs follow p)) ps"

definition keys_of :: "filesystem \<Rightarrow> WindowsPath list \<Rightarrow> string set" where
  "keys_of fs ps = {k. \<exists>p \<in> set ps. ToAbs fs p = Some k}"

definition unvisited :: "filesystem \<Rightarrow> WindowsPath list \<Rightarrow> 's walk_state \<Rightarrow> nat" where
  "unvisited fs ps st = card {k \<in> keys_of fs ps. fresh st k}"

fun arg_in :: "WindowsPath list \<Rightarrow> walk_arg \<Rightarrow> bool" where
  "arg_in ps (Node p) = (p \<in> set ps)"
| "arg_in ps (Children cs) = (set cs \<subseteq> set ps)"

section \<open>A filesystem with link cycles\<close>

text \<open>
  The directory \<open>C:\d\<close> holds the link \<open>up\<close> to \<open>C:\d\<close> itself and the link \<open>x\<close> to the
  directory \<open>C:\e\<close>, which holds the link \<open>loop\<close> back to \<open>C:\d\<close>.  All paths are
  absolute, so \<open>filepath.Abs\<close> is \<open>filepath.Clean\<close>.  Paths are written with \<open>/\<close> and
  converted by \<open>FromSlash\<close>.
\<close>

definition demo_abs :: "string \<Rightarrow> string option" where
  "demo_abs p = Some (filepath_Clean p)"

definition demo_lstat :: "string \<Rightarrow> file_kind option" where
  "demo_lstat p =
     map_of [(''C:/d'', Directory), (''C:/d/up'', Symlink), (''C:/d/x'', Symlink),
             (''C:/e'', Directory), (''C:/e/loop'', Symlink)] (ToSlash p)"

definition demo_readlink :: "string \<Rightarrow> string option" where
  "demo_readlink p =
     map_option FromSlash
       (map_of [(''C:/d/up'', ''C:/d''), (''C:/d/x'', ''C:/e''), (''C:/e/loop'', ''C:/d'')] (ToSlash p))"

definition demo_readdir :: "string \<Rightarrow> string list option" where
  "demo_readdir p = map_of [(''C:/d'', [''up'', ''x'']), (''C:/e'', [''loop''])] (ToSlash p)"

definition demo_fs :: filesystem where
  "demo_fs =
     \<lparr>fs_abs = demo_abs, fs_lstat = demo_lstat, fs_readlink = demo_readlink,
      fs_readdir = demo_readdir\<rparr>"

definition demo_paths :: "WindowsPath list" where
  "demo_paths = map FromSlash [''C:/d'', ''C:/d/up'', ''C:/d/x'', ''C:/e/loop'']"

text \<open>A callback that counts its calls and always returns nil.\<close>

definition count_calls :: "nat callback" where
  "count_calls n p cond = (None, Suc n)"

definition demo_d :: WindowsPath where
  "demo_d = FromSlash ''C:/d''"
definition demo_up :: WindowsPath where
  "demo_up = FromSlash ''C:/d/up''"
definition demo_x :: WindowsPath where
  "demo_x = FromSlash ''C:/d/x''"
definition demo_e :: WindowsPath where
  "demo_e = FromSlash ''C:/e''"
definition demo_loop :: WindowsPath where
  "demo_loop = FromSlash ''C:/e/loop''"

definition demo_start :: "nat walk_state" where
  "demo_start = \<lparr>visited = (\<lambda>k. 0), cb_state = 0, history = []\<rparr>"

section \<open>Package ntpath: ValidateAnchor, ValidatePath; IsAbs\<close>

definition ValidateAnchor :: "string \<Rightarrow> error option" where
  "ValidateAnchor anchor0 =
     (let anchor = ReplaceAll anchor0 (CHR ''/'') bs in
      if HasPrefix anchor [bs, bs] then
        (if regUNC anchor = Some anchor then None else Some ErrInvalidAnchor)
      else if CHR '':'' \<in> set anchor then
        (if regDrive anchor = Some anchor then None else Some ErrInvalidAnchor)
      else if anchor \<noteq> [bs] \<and> anchor \<noteq> [] then Some ErrInvalidAnchor
      else None)"

fun first_error :: "string list \<Rightarrow> error option" where
  "first_error [] = None"
| "first_error (part # parts) =
     (case ValidateName part of Some err \<Rightarrow> Some err | None \<Rightarrow> first_error parts)"

definition ValidatePath :: "string \<Rightarrow> error option" where
  "ValidatePath path0 =
     (let path = Clean path0; anchor = Anchor path; parts = Parts path in
      if anchor \<noteq> [] then
        (case ValidateAnchor anchor of
           Some err \<Rightarrow> Some err
         | None \<Rightarrow> first_error (tl parts))
      else first_error parts)"

definition IsAbs :: "PureWindowsPath \<Rightarrow> bool" where
  "IsAbs p = (Drive p \<noteq> [] \<and> Root p \<noteq> [])"

section \<open>Package net/url: Parse\<close>

text \<open>
  \<open>url.Parse\<close> of the Go standard library, as far as file URLs need it: the fragment is
  cut at the first \<open>#\<close>, a control byte is an error, the scheme is read and lowered, the
  query is cut at the first \<open>?\<close>, a rooted rest after \<open>//\<close> starts with the authority, and
  the path is percent-decoded, where a \<open>%\<close> that is not followed by two hexadecimal digits
  is an error.  Of the authority only a plain host name is modelled (letters, digits and
  the marks that \<open>net/url\<close> accepts unescaped in a host, without \<open>:\<close>, \<open>[\<close> and \<open>]\<close>); user
  information, ports, address literals and escapes in the authority are outside the model
  and are reported as an error.  \<open>None\<close> is an error.
\<close>

record URL =
  Scheme :: string
  Opaque :: string
  Host :: string
  Path :: string
  RawQuery :: string
  Fragment :: string

definition is_digit :: "char \<Rightarrow> bool" where
  "is_digit c = (48 \<le> (of_char c :: nat) \<and> (of_char c :: nat) \<le> 57)"

definition Cut :: "string \<Rightarrow> char \<Rightarrow> string \<times> string" where
  "Cut s sep = (takeWhile (\<lambda>c. c \<noteq> sep) s, drop 1 (dropWhile (\<lambda>c. c \<noteq> sep) s))"

definition stringContainsCTLByte :: "string \<Rightarrow> bool" where
  "stringContainsCTLByte s = (\<exists>c \<in> set s. (of_char c :: nat) < 32 \<or> (of_char c :: nat) = 127)"

text \<open>\<open>getScheme\<close>: \<open>None\<close> is the error "missing protocol scheme".\<close>

fun scheme_scan :: "string \<Rightarrow> string \<Rightarrow> string \<Rightarrow> (string \<times> string) option" where
  "scheme_scan rawURL seen [] = Some ([], rawURL)"
| "scheme_scan rawURL seen (c # cs) =
     (if is_letter c then scheme_scan rawURL (seen @ [c]) cs
      else if is_digit c \<or> c = CHR ''+'' \<or> c = CHR ''-'' \<or> c = CHR ''.'' then
        (if seen = [] then Some ([], rawURL) else scheme_scan rawURL (seen @ [c]) cs)
      else if c = CHR '':'' then
        (if seen = [] then None else Some (seen, cs))
      else Some ([], rawURL))"

definition getScheme :: "string \<Rightarrow> (string \<times> string) option" where
  "getScheme rawURL = scheme_scan rawURL [] rawURL"

definition unhex :: "char \<Rightarrow> nat option" where
  "unhex c =
     (let n = (of_char c :: nat) in
      if 48 \<le> n \<and> n \<le> 57 then Some (n - 48)
      else if 97 \<le> n \<and> n \<le> 102 then Some (n - 97 + 10)
      else if 65 \<le> n \<and> n \<le> 70 then Some (n - 65 + 10)
      else None)"

fun unescape_path :: "string \<Rightarrow> string option" where
  "unescape_path [] = Some []"
| "unescape_path (c # cs) =
     (if c = CHR ''%'' then
        (case cs of
           h1 # h2 # rest \<Rightarrow>
             (case (unhex h1, unhex h2) of
                (Some a, Some b) \<Rightarrow>
                  (case unescape_path rest of
                     None \<Rightarrow> None
                   | Some r \<Rightarrow> Some (char_of (a * 16 + b) # r))
              | _ \<Rightarrow> None)
         | _ \<Rightarrow> None)
      else (case unescape_path cs of None \<Rightarrow> None | Some r \<Rightarrow> Some (c # r)))"

definition host_char :: "char \<Rightarrow> bool" where
  "host_char c =
     (is_letter c \<or> is_digit c \<or> c \<in> set (''-_.~!$&()*+,;=<>'' @ [CHR 0x27, CHR 0x22]))"

definition parseAuthority :: "string \<Rightarrow> string option" where
  "parseAuthority authority = (if list_all host_char authority then Some authority else None)"

definition parse_rest :: "string \<Rightarrow> string \<Rightarrow> string \<Rightarrow> URL option" where
  "parse_rest scheme rest0 frag =
     (let rest1 = (if HasSuffix rest0 ''?'' \<and> count_char (CHR ''?'') rest0 = 1
                   then take (length rest0 - 1) rest0 else fst (Cut rest0 (CHR ''?'')));
          query = (if HasSuffix rest0 ''?'' \<and> count_char (CHR ''?'') rest0 = 1
                   then [] else snd (Cut rest0 (CHR ''?'')))
      in if \<not> HasPrefix rest1 ''/'' \<and> scheme \<noteq> [] then
           Some \<lparr>Scheme = scheme, Opaque = rest1, Host = [], Path = [], RawQuery = query,
                 Fragment = frag\<rparr>
         else if \<not> HasPrefix rest1 ''/'' \<and> CHR '':'' \<in> set (fst (Cut rest1 (CHR ''/''))) then None
         else if (scheme \<noteq> [] \<or> \<not> HasPrefix rest1 ''///'') \<and> HasPrefix rest1 ''//'' then
           (let a = drop 2 rest1;
                authority = takeWhile (\<lambda>c. c \<noteq> CHR ''/'') a;
                rest2 = dropWhile (\<lambda>c. c \<noteq> CHR ''/'') a
            in case parseAuthority authority of
                 None \<Rightarrow> None
               | Some host \<Rightarrow>
                   (case unescape_path rest2 of
                      None \<Rightarrow> None
                    | Some path \<Rightarrow>
                        Some \<lparr>Scheme = scheme, Opaque = [], Host = host, Path = path,
                              RawQuery = query, Fragment = frag\<rparr>))
         else
           (case unescape_path rest1 of
              None \<Rightarrow> None
            | Some path \<Rightarrow>
                Some \<lparr>Scheme = scheme, Opaque = [], Host = [], Path = path, RawQuery = query,
                      Fragment = frag\<rparr>))"

definition url_Parse :: "string \<Rightarrow> URL option" where
  "url_Parse rawURL =
     (let u = fst (Cut rawURL (CHR ''#'')); frag0 = snd (Cut rawURL (CHR ''#'')) in
      if stringContainsCTLByte u then None
      else if u = ''*'' then
        (case unescape_path frag0 of
           None \<Rightarrow> None
         | Some frag \<Rightarrow>
             Some \<lparr>Scheme = [], Opaque = [], Host = [], Path = ''*'', RawQuery = [], Fragment = frag\<rparr>)
      else
        (case getScheme u of
           None \<Rightarrow> None
         | Some (scheme, rest) \<Rightarrow>
             (case unescape_path frag0 of
                None \<Rightarrow> None
              | Some frag \<Rightarrow> parse_rest (ToLower scheme) rest frag)))"

section \<open>Package path: file URLs\<close>

datatype path_error = ErrToURL | ErrParseURL | ErrRemove

definition SplitN2 :: "string \<Rightarrow> char \<Rightarrow> string list" where
  "SplitN2 s sep = (if sep \<in> set s then [fst (Cut s sep), snd (Cut s sep)] else [s])"

definition ToURL :: "filesystem \<Rightarrow> WindowsPath \<Rightarrow> path_error + string" where
  "ToURL fs p =
     (case ToAbs fs p of
        None \<Rightarrow> Inl ErrToURL
      | Some absPath \<Rightarrow>
          if HasPrefix (Anchor absPath) [bs, bs] then
            (let parts = SplitN2 (TrimPrefix absPath [bs, bs]) bs in
             if length parts < 2 then Inl ErrToURL
             else Inr (''file://'' @ parts ! 0 @ ''/'' @ ToSlash (parts ! 1)))
          else Inr (''file:///'' @ ToSlash absPath))"

definition URLToPath :: "string \<Rightarrow> path_error + string" where
  "URLToPath fileUrl =
     (case url_Parse fileUrl of
        None \<Rightarrow> Inl ErrParseURL
      | Some u \<Rightarrow>
          if Scheme u \<noteq> ''file'' then Inl ErrParseURL
          else
            let host = Host u; path = Path u;
                path1 = (if length path \<ge> 3 \<and> path ! 2 = CHR '':'' then TrimPrefix path ''/''
                         else ''//'' @ host @ path)
            in Inr (Clean path1))"

definition FromURL :: "string \<Rightarrow> path_error + WindowsPath" where
  "FromURL fileUrl =
     (case URLToPath fileUrl of Inl err \<Rightarrow> Inl err | Inr path \<Rightarrow> Inr (NewWindowsPath [path]))"

section \<open>Package path: Remove\<close>

text \<open>
  The operations of the operating system that change the filesystem take the state of the
  filesystem and return the new one; \<open>None\<close> is success for them and \<open>Some\<close> an error of the
  system.  \<open>os_Lstat\<close> and \<open>os_Stat\<close> give the kind of an entry, without and with following
  links, or \<open>None\<close> when the call fails.
\<close>

record 'w os_ops =
  os_Stat :: "'w \<Rightarrow> string \<Rightarrow> file_kind option"
  os_Lstat :: "'w \<Rightarrow> string \<Rightarrow> file_kind option"
  os_Remove :: "'w \<Rightarrow> string \<Rightarrow> nat option \<times> 'w"
  os_RemoveAll :: "'w \<Rightarrow> string \<Rightarrow> nat option \<times> 'w"

definition Exists :: "'w os_ops \<Rightarrow> 'w \<Rightarrow> WindowsPath \<Rightarrow> bool \<Rightarrow> bool" where
  "Exists os w p isFollow =
     (if isFollow then os_Stat os w p \<noteq> None else os_Lstat os w p \<noteq> None)"

definition Remove :: "'w os_ops \<Rightarrow> WindowsPath \<Rightarrow> bool \<Rightarrow> 'w \<Rightarrow> path_error option \<times> 'w" where
  "Remove os p isRecursive w =
     (if \<not> Exists os w p False then (None, w)
      else if isRecursive then
        (case os_RemoveAll os w p of
           (Some err, w') \<Rightarrow> (Some ErrRemove, w')
         | (None, w') \<Rightarrow> (None, w'))
      else
        (case os_Remove os w p of
           (Some err, w') \<Rightarrow> (Some ErrRemove, w')
         | (None, w') \<Rightarrow> (None, w')))"

text \<open>
  A filesystem state for examples: a list of entries, each a path with its kind and, for
  a link, its target.  Removing deletes the entry (and for \<open>RemoveAll\<close> every entry below
  it); removing a missing entry is the error 2 for \<open>os.Remove\<close>.
\<close>

type_synonym entries = "(string \<times> file_kind \<times> string) list"

definition entries_Lstat :: "entries \<Rightarrow> string \<Rightarrow> file_kind option" where
  "entries_Lstat w p = map_option fst (map_of w p)"

definition entries_Stat :: "entries \<Rightarrow> string \<Rightarrow> file_kind option" where
  "entries_Stat w p =
     (case map_of w p of
        None \<Rightarrow> None
      | Some (kind, target) \<Rightarrow> if kind = Symlink then entries_Lstat w target else Some kind)"

definition entries_Remove :: "entries \<Rightarrow> string \<Rightarrow> nat option \<times> entries" where
  "entries_Remove w p =
     (if map_of w p = None then (Some 2, w) else (None, filter (\<lambda>e. fst e \<noteq> p) w))"

definition entries_RemoveAll :: "entries \<Rightarrow> string \<Rightarrow> nat option \<times> entries" where
  "entries_RemoveAll w p =
     (None, filter (\<lambda>e. fst e \<noteq> p \<and> \<not> HasPrefix (fst e) (p @ [bs])) w)"

definition entries_os :: "entries os_ops" where
  "entries_os =
     \<lparr>os_Stat = entries_Stat, os_Lstat = entries_Lstat, os_Remove = entries_Remove,
      os_RemoveAll = entries_RemoveAll\<rparr>"

definition demo_entries :: entries where
  "demo_entries =
     [(FromSlash ''C:/d'', Directory, []), (FromSlash ''C:/d/f.md'', Regular, []),
      (FromSlash ''C:/d/lnof.md'', Symlink, FromSlash ''D:/tmp/nofile'')]"

section \<open>Package path: ReadLinkPath\<close>

text \<open>
  \<open>ReadLinkPath\<close> reads the target of a link and, when the target is not absolute, joins
  it onto the parent of the link.  \<open>Parent\<close> and \<open>Join\<close> of a \<open>WindowsPath\<close> are those of
  \<open>BasePath\<close>.
\<close>

definition BasePath_Parent :: "WindowsPath \<Rightarrow> WindowsPath" where
  "BasePath_Parent p = FromPurePath (Parent p)"

definition ReadLinkPath :: "filesystem \<Rightarrow> WindowsPath \<Rightarrow> WindowsPath option" where
  "ReadLinkPath fs p =
     (case ReadLink fs p of
        None \<Rightarrow> None
      | Some target \<Rightarrow>
          Some (if \<not> IsAbs target then BasePath_Join (BasePath_Parent p) [target] else target))"

section \<open>A filesystem with a relative link to the directory that holds it\<close>

text \<open>
  The working directory is \<open>C:\proj\<close>.  It holds the file \<open>other.txt\<close> and the
  directory \<open>file\<close>, which holds the link \<open>parent_link\<close> whose target is written \<open>.\<close>,
  as \<open>os.Symlink(".", "file\parent_link")\<close> creates it in the tests of the repository;
  \<open>os.Readlink\<close> returns that text.  \<open>filepath.Abs\<close> cleans an absolute path and joins any
  other path onto the working directory.
\<close>

definition rel_cwd :: string where
  "rel_cwd = FromSlash ''C:/proj''"

definition rel_abs :: "string \<Rightarrow> string option" where
  "rel_abs p = Some (if has_drive_root p then filepath_Clean p else filepath_Join [rel_cwd, p])"

definition rel_lstat :: "string \<Rightarrow> file_kind option" where
  "rel_lstat p =
     map_of [(''.'', Directory), (''file'', Directory), (''file/parent_link'', Symlink),
             (''other.txt'', Regular)] (ToSlash p)"

definition rel_readlink :: "string \<Rightarrow> string option" where
  "rel_readlink p =
     map_of [(''file/parent_link'', ''.''), (''C:/proj/file/parent_link'', ''.'')] (ToSlash p)"

definition rel_readdir :: "string \<Rightarrow> string list option" where
  "rel_readdir p = map_of [(''.'', [''file'', ''other.txt'']), (''file'', [''parent_link''])] (ToSlash p)"

definition rel_fs :: filesystem where
  "rel_fs =
     \<lparr>fs_abs = rel_abs, fs_lstat = rel_lstat, fs_readlink = rel_readlink,
      fs_readdir = rel_readdir\<rparr>"

definition rel_file :: WindowsPath where
  "rel_file = NewWindowsPath [''./file'']"
definition rel_link :: WindowsPath where
  "rel_link = FromSlash ''file/parent_link''"
definition rel_other :: WindowsPath where
  "rel_other = ''other.txt''"
definition rel_file_abs :: WindowsPath where
  "rel_file_abs = FromSlash ''C:/proj/file''"
definition rel_link_abs :: WindowsPath where
  "rel_link_abs = FromSlash ''C:/proj/file/parent_link''"
definition rel_other_abs :: WindowsPath where
  "rel_other_abs = FromSlash ''C:/proj/other.txt''"

section \<open>The sanitizer produces valid names\<close>

lemma strip_trailing_last:
  assumes "strip_trailing s \<noteq> []"
  shows "\<not> is_space (last (strip_trailing s)) \<and> last (strip_trailing s) \<noteq> CHR ''.''"
proof -
  let ?d = "dropWhile (\<lambda>c. is_space c \<or> c = CHR ''.'') (rev s)"
  from assms have ne: "?d \<noteq> []" by (simp add: strip_trailing_def)
  then have "\<not> (is_space (hd ?d) \<or> hd ?d = CHR ''.'')"
    by (rule hd_dropWhile)
  moreover have "last (strip_trailing s) = hd ?d"
    using ne by (simp add: strip_trailing_def last_rev)
  ultimately show ?thesis by simp
qed

lemma strip_trailing_set: "set (strip_trailing s) \<subseteq> set s"
  using set_dropWhileD by (fastforce simp: strip_trailing_def)

lemma strip_trailing_length: "length (strip_trailing s) \<le> length s"
  by (simp add: strip_trailing_def length_dropWhile_le [of _ "rev s", simplified])

lemma lower_char_plain: "plain_char (lower_char c) \<Longrightarrow> plain_char c"
  unfolding lower_char_def plain_char_def is_letter_def is_upper_def is_lower_def
  by (auto split: if_splits)

lemma reserved_lower_plain_all:
  "\<forall>r \<in> set ReservedNames. length r \<le> 4 \<and> (\<forall>c \<in> set (ToLower r). plain_char c) \<and> last (ToLower r) \<noteq> CHR ''_''  \<and> r \<noteq> []"
  by code_simp

lemma reserved_lower_plain:
  "r \<in> set ReservedNames \<Longrightarrow> length r \<le> 4 \<and> (\<forall>c \<in> set (ToLower r). plain_char c) \<and> last (ToLower r) \<noteq> CHR ''_''  \<and> r \<noteq> []"
  using reserved_lower_plain_all by blast

lemma EqualFold_reserved:
  assumes "r \<in> set ReservedNames" "EqualFold s r"
  shows "length s \<le> 4 \<and> (\<forall>c \<in> set s. plain_char c)"
proof -
  from assms(2) have eq: "map lower_char s = map lower_char r"
    by (simp add: EqualFold_def ToLower_def)
  then have "length s = length r" by (metis length_map)
  moreover have "\<forall>c \<in> set s. plain_char c"
  proof
    fix c assume "c \<in> set s"
    then have "lower_char c \<in> set (map lower_char s)" by simp
    with eq have "lower_char c \<in> set (ToLower r)" by (simp add: ToLower_def)
    with reserved_lower_plain [OF assms(1)] have "plain_char (lower_char c)" by blast
    then show "plain_char c" by (rule lower_char_plain)
  qed
  ultimately show ?thesis using reserved_lower_plain [OF assms(1)] by simp
qed

lemma plain_char_ok:
  "plain_char c \<Longrightarrow> c \<noteq> CHR 0x0A \<and> c \<noteq> CHR 0x0D \<and> c \<notin> set InvalidChars"
  unfolding plain_char_def is_letter_def is_upper_def is_lower_def InvalidChars_def bs_def
  by auto

lemma underscore_ok:
  "\<not> is_space (CHR ''_'') \<and> CHR ''_'' \<notin> set InvalidChars \<and> lower_char (CHR ''_'') = CHR ''_''"
  by (simp add: is_space_def InvalidChars_def bs_def lower_char_def is_upper_def)

lemma reserved_suffixed_valid:
  assumes "r \<in> set ReservedNames" "EqualFold s r"
  shows "ValidateName (s @ ''_'') = None"
proof -
  from EqualFold_reserved [OF assms] have len: "length s \<le> 4" and pl: "\<forall>c \<in> set s. plain_char c"
    by simp_all
  have nores: "\<not> (\<exists>r' \<in> set ReservedNames. EqualFold (s @ ''_'') r')"
  proof
    assume "\<exists>r' \<in> set ReservedNames. EqualFold (s @ ''_'') r'"
    then obtain r' where r': "r' \<in> set ReservedNames" and "EqualFold (s @ ''_'') r'" by blast
    then have "ToLower s @ ''_'' = ToLower r'"
      by (simp add: EqualFold_def ToLower_def underscore_ok)
    then have "last (ToLower r') = CHR ''_''" by (metis last_snoc)
    with reserved_lower_plain [OF r'] show False by simp
  qed
  have nl: "\<not> (\<exists>c \<in> set (s @ ''_''). c = CHR 0x0A \<or> c = CHR 0x0D)"
    using pl plain_char_ok by auto
  have inv: "\<not> (\<exists>c \<in> set InvalidChars. c \<in> set (s @ ''_''))"
    using pl plain_char_ok underscore_ok by auto
  show ?thesis
    unfolding ValidateName_def using len nores nl inv underscore_ok
    by (simp del: set_append)
qed

lemma ToValidName_validates: "ValidateName (ToValidName name) = None"
proof (cases "length name = 0")
  case True
  have "ValidateName ''_'' = None"
    by code_simp
  with True show ?thesis by (simp add: ToValidName_def)
next
  case False
  define n1 where "n1 = (if length name > 255 then take 255 name else name)"
  define n2 where "n2 = map (\<lambda>c. if c \<in> set InvalidChars then CHR ''_'' else c) n1"
  define n3 where "n3 = strip_trailing n2"
  define n4 where "n4 = map (\<lambda>c. if c = CHR 0x0A \<or> c = CHR 0x0D then CHR '' '' else c) n3"
  define n5 where "n5 = (if (\<exists>r \<in> set ReservedNames. EqualFold n4 r) then n4 @ ''_'' else n4)"
  have tv: "ToValidName name = (if length n5 = 0 then ''_'' else n5)"
    using False by (simp add: ToValidName_def Let_def n1_def n2_def n3_def n4_def n5_def)
  have under: "ValidateName ''_'' = None"
    by code_simp
  show ?thesis
  proof (cases "\<exists>r \<in> set ReservedNames. EqualFold n4 r")
    case True
    then obtain r where "r \<in> set ReservedNames" "EqualFold n4 r" by blast
    then have "ValidateName (n4 @ ''_'') = None" by (rule reserved_suffixed_valid)
    with True show ?thesis by (simp add: tv n5_def)
  next
    case nores: False
    then have n5: "n5 = n4" by (simp add: n5_def)
    show ?thesis
    proof (cases "n4 = []")
      case True
      with n5 tv under show ?thesis by simp
    next
      case ne: False
      then have n3ne: "n3 \<noteq> []" by (auto simp: n4_def)
      have len1: "length n1 \<le> 255" by (simp add: n1_def)
      have "length n4 \<le> length n2"
        using strip_trailing_length [of n2] by (simp add: n4_def n3_def)
      with len1 have len: "length n4 \<le> 255" by (simp add: n2_def)
      from strip_trailing_last [of n2] n3ne
      have l3: "\<not> is_space (last n3)" "last n3 \<noteq> CHR ''.''" by (simp_all add: n3_def)
      from l3(1) have "last n3 \<noteq> CHR 0x0A \<and> last n3 \<noteq> CHR 0x0D" by (auto simp: is_space_def)
      then have "last n4 = last n3" using n3ne by (simp add: n4_def last_map)
      with l3 have l4: "\<not> is_space (last n4)" "last n4 \<noteq> CHR ''.''" by simp_all
      have nl: "\<not> (\<exists>c \<in> set n4. c = CHR 0x0A \<or> c = CHR 0x0D)"
        by (auto simp: n4_def)
      have "\<forall>c \<in> set n2. c \<notin> set InvalidChars"
        using underscore_ok by (auto simp: n2_def)
      with strip_trailing_set [of n2] have "\<forall>c \<in> set n3. c \<notin> set InvalidChars"
        by (auto simp: n3_def)
      moreover have "CHR '' '' \<notin> set InvalidChars" by (simp add: InvalidChars_def bs_def)
      ultimately have inv: "\<not> (\<exists>c \<in> set InvalidChars. c \<in> set n4)"
        by (auto simp: n4_def)
      have "ValidateName n4 = None"
        unfolding ValidateName_def using ne len l4 nl inv nores by simp
      with ne n5 tv show ?thesis by simp
    qed
  qed
qed

text \<open>
  Claim C9.  For every input string, \<open>ToValidName\<close> returns a non-empty component name
  that \<open>ValidateName\<close> accepts: validation of the sanitized name returns no error.
\<close>

theorem ToValidName_valid:
  "ToValidName name \<noteq> [] \<and> ValidateName (ToValidName name) = None"
proof -
  have v: "ValidateName (ToValidName name) = None" by (rule ToValidName_validates)
  then have "ToValidName name \<noteq> []" by (auto simp: ValidateName_def)
  with v show ?thesis by simp
qed

theorem ToValidName_valid_witness:
  "ToValidName (''CON.'' @ [CHR 0x0A]) = ''CON_'' \<and> ValidateName ''CON'' = Some ErrInvalidName
   \<and> ValidateName (ToValidName (''CON.'' @ [CHR 0x0A])) = None"
proof -
  have "ToValidName (''CON.'' @ [CHR 0x0A]) = ''CON_''" by code_simp
  moreover have "ValidateName ''CON'' = Some ErrInvalidName" by code_simp
  ultimately show ?thesis
    using ToValidName_valid [of "''CON.'' @ [CHR 0x0A]"] by simp
qed

section \<open>The memoized matcher computes the segment-wise match\<close>

definition memo_sound :: "(string \<Rightarrow> string \<Rightarrow> bool) \<Rightarrow> string list \<Rightarrow> string list \<Rightarrow> memo \<Rightarrow> bool" where
  "memo_sound gm pats paths m =
     (\<forall>i j v. m (i, j) = Some v \<longrightarrow> v = segment_match gm (drop i pats) (drop j paths))"

lemma memo_sound_empty: "memo_sound gm pats paths Map.empty"
  by (simp add: memo_sound_def)

lemma memo_sound_upd:
  "memo_sound gm pats paths m \<Longrightarrow> v = segment_match gm (drop i pats) (drop j paths)
   \<Longrightarrow> memo_sound gm pats paths (m((i, j) \<mapsto> v))"
  by (simp add: memo_sound_def)

lemma first_true_sound:
  assumes "\<And>x m. x \<in> set xs \<Longrightarrow> memo_sound gm pats paths m \<Longrightarrow>
             \<exists>m'. f x m = Some (Q x, m') \<and> memo_sound gm pats paths m'"
      and "memo_sound gm pats paths m"
  shows "\<exists>m'. first_true f xs m = Some (\<exists>x \<in> set xs. Q x, m') \<and> memo_sound gm pats paths m'"
  using assms
proof (induction xs arbitrary: m)
  case Nil
  then show ?case by simp
next
  case (Cons x xs)
  from Cons.prems(1) [of x m] Cons.prems(2)
  obtain m1 where f: "f x m = Some (Q x, m1)" and s1: "memo_sound gm pats paths m1"
    by auto
  show ?case
  proof (cases "Q x")
    case True
    with f s1 show ?thesis by auto
  next
    case False
    have "\<exists>m'. first_true f xs m1 = Some (\<exists>x \<in> set xs. Q x, m') \<and> memo_sound gm pats paths m'"
      using Cons.IH [OF _ s1] Cons.prems(1) by simp
    with f False show ?thesis by auto
  qed
qed

lemma star_positions:
  assumes "j \<le> length paths"
  shows "(\<exists>k \<in> {0 .. length (drop j paths)}. segment_match gm pats (drop k (drop j paths)))
         = (\<exists>x \<in> set [j ..< Suc (length paths)]. segment_match gm pats (drop x paths))"
proof
  assume "\<exists>k \<in> {0 .. length (drop j paths)}. segment_match gm pats (drop k (drop j paths))"
  then obtain k where "k \<le> length paths - j" "segment_match gm pats (drop (k + j) paths)"
    by auto
  then have "k + j \<in> set [j ..< Suc (length paths)]" using assms by auto
  with \<open>segment_match gm pats (drop (k + j) paths)\<close>
  show "\<exists>x \<in> set [j ..< Suc (length paths)]. segment_match gm pats (drop x paths)"
    by blast
next
  assume "\<exists>x \<in> set [j ..< Suc (length paths)]. segment_match gm pats (drop x paths)"
  then obtain x where x: "j \<le> x" "x \<le> length paths" "segment_match gm pats (drop x paths)"
    by auto
  then have "x - j \<in> {0 .. length (drop j paths)}" by auto
  moreover have "drop (x - j) (drop j paths) = drop x paths" using x(1) by simp
  ultimately show "\<exists>k \<in> {0 .. length (drop j paths)}. segment_match gm pats (drop k (drop j paths))"
    using x(3) by metis
qed

lemma match_memo_sound:
  assumes "i \<le> length pats" "j \<le> length paths" "memo_sound gm pats paths m"
  shows "\<exists>m'. match_memo gm pats paths i j m
               = Some (segment_match gm (drop i pats) (drop j paths), m')
             \<and> memo_sound gm pats paths m'"
  using assms
proof (induction gm pats paths i j m rule: match_memo.induct)
  case (1 gm pats paths i j m)
  let ?spec = "segment_match gm (drop i pats) (drop j paths)"
  show ?case
  proof (cases "m (i, j)")
    case (Some v)
    with "1.prems"(3) have "v = ?spec" by (simp add: memo_sound_def)
    with Some "1.prems"(3) show ?thesis by (subst match_memo.simps) simp
  next
    case None
    note unf = match_memo.simps [of gm pats paths i j m, unfolded None option.case]
    show ?thesis
    proof (cases "i = length pats")
      case True
      have "?spec = (j = length paths)" using True "1.prems"(2) by auto
      then show ?thesis
        unfolding unf using True "1.prems"(3) by (simp add: memo_sound_upd)
    next
      case False
      with "1.prems"(1) have lt: "i < length pats" by simp
      then have dr: "drop i pats = pats ! i # drop (Suc i) pats"
        by (simp add: Cons_nth_drop_Suc)
      show ?thesis
      proof (cases "pats ! i = ''**''")
        case True
        let ?f = "\<lambda>cur. match_memo gm pats paths (i + 1) cur"
        let ?Q = "\<lambda>x. segment_match gm (drop (Suc i) pats) (drop x paths)"
        have step: "\<exists>m'. ?f x ma = Some (?Q x, m') \<and> memo_sound gm pats paths m'"
          if "x \<in> set [j ..< Suc (length paths)]" "memo_sound gm pats paths ma" for x ma
        proof -
          from that(1) have "x \<le> length paths" by auto
          with "1.IH"(1) [OF None False _ True that(1), of ma] lt that(2)
          show ?thesis by simp
        qed
        from first_true_sound [of "[j ..< Suc (length paths)]" gm pats paths ?f ?Q m, OF step "1.prems"(3)]
        obtain m1 where ft: "first_true ?f [j ..< Suc (length paths)] m
                               = Some (\<exists>x \<in> set [j ..< Suc (length paths)]. ?Q x, m1)"
          and s1: "memo_sound gm pats paths m1" by blast
        have "?spec = (\<exists>x \<in> set [j ..< Suc (length paths)]. ?Q x)"
          using dr True star_positions [OF "1.prems"(2)] by simp
        with ft have ft': "first_true ?f [j ..< Suc (length paths)] m = Some (?spec, m1)" by simp
        show ?thesis
          unfolding unf using False lt True ft' s1 by (simp add: memo_sound_upd)
      next
        case nstar: False
        show ?thesis
        proof (cases "j \<ge> length paths")
          case True
          then have "?spec = False" using dr nstar by simp
          then show ?thesis
            unfolding unf using False lt nstar True "1.prems"(3) by (simp add: memo_sound_upd)
        next
          case jlt: False
          then have dj: "drop j paths = paths ! j # drop (Suc j) paths"
            by (simp add: Cons_nth_drop_Suc)
          show ?thesis
          proof (cases "gm (pats ! i) (paths ! j)")
            case False
            then have "?spec = False" using dr dj nstar by simp
            then show ?thesis
              unfolding unf using \<open>i \<noteq> length pats\<close> lt nstar jlt False "1.prems"(3)
              by (simp add: memo_sound_upd)
          next
            case True
            have sp: "?spec = segment_match gm (drop (Suc i) pats) (drop (Suc j) paths)"
              using dr dj nstar True by simp
            from "1.IH"(2) [OF None False _ nstar jlt] lt jlt True "1.prems"(3)
            obtain m1 where r: "match_memo gm pats paths (i + 1) (j + 1) m
                                  = Some (segment_match gm (drop (Suc i) pats) (drop (Suc j) paths), m1)"
              and s1: "memo_sound gm pats paths m1" by auto
            from r sp have r': "match_memo gm pats paths (i + 1) (j + 1) m = Some (?spec, m1)"
              by simp
            show ?thesis
              unfolding unf using False lt nstar jlt True r' s1 by (simp add: memo_sound_upd)
          qed
        qed
      qed
    qed
  qed
qed

lemma Match_refines:
  "Match pattern path
     = Some (segment_match filepath_Match (Split (ToSlash pattern) (CHR ''/''))
               (Split (ToSlash path) (CHR ''/'')))"
  using match_memo_sound [of 0 "Split (ToSlash pattern) (CHR ''/'')" 0 "Split (ToSlash path) (CHR ''/'')"
      filepath_Match Map.empty]
  by (auto simp: Match_def Let_def memo_sound_empty)

lemma segment_match_cong:
  "(\<And>p q. p \<in> set pats \<Longrightarrow> q \<in> set ps \<Longrightarrow> gm p q = gm' p q)
   \<Longrightarrow> segment_match gm pats ps = segment_match gm' pats ps"
proof (induction pats arbitrary: ps)
  case Nil
  show ?case by simp
next
  case (Cons p pats)
  have d: "segment_match gm pats (drop k ps) = segment_match gm' pats (drop k ps)" for k
    using Cons.prems by (intro Cons.IH) (auto dest: in_set_dropD)
  show ?case
  proof (cases ps)
    case Nil
    with d [of 0] show ?thesis by simp
  next
    case (Cons q qs)
    with d [of 1] have "segment_match gm pats qs = segment_match gm' pats qs" by simp
    moreover have "gm p q = gm' p q" using Cons.prems Cons by simp
    ultimately show ?thesis using d Cons by simp
  qed
qed

lemma Split_set: "seg \<in> set (Split s sep) \<Longrightarrow> set seg \<subseteq> set s - {sep}"
proof (induction s arbitrary: seg)
  case Nil
  then show ?case by simp
next
  case (Cons c s)
  show ?case
  proof (cases "c = sep")
    case True
    with Cons show ?thesis by auto
  next
    case False
    have ne: "Split s sep \<noteq> []" by (cases s) (auto simp: Let_def)
    from Cons.prems False have "seg = c # hd (Split s sep) \<or> seg \<in> set (tl (Split s sep))"
      by (simp add: Let_def)
    then show ?thesis
    proof
      assume "seg = c # hd (Split s sep)"
      moreover have "hd (Split s sep) \<in> set (Split s sep)" using ne by simp
      ultimately show ?thesis using Cons.IH False by auto
    next
      assume "seg \<in> set (tl (Split s sep))"
      then have "seg \<in> set (Split s sep)" using ne by (auto dest: list.set_sel(2))
      with Cons.IH show ?thesis by auto
    qed
  qed
qed

section \<open>\<open>filepath.Match\<close> and the standard glob rules\<close>

lemma ascii_width: "ascii s \<Longrightarrow> s \<noteq> [] \<Longrightarrow> DecodeRuneInString s = (of_char (hd s), 1)"
  by (cases s) (auto simp: ascii_def decode1_def utf8_size_def)


lemma ascii_tl: "ascii s \<Longrightarrow> ascii (tl s)"
  by (cases s) (auto simp: ascii_def)

lemma ascii_drop: "ascii s \<Longrightarrow> ascii (drop k s)"
  by (auto simp: ascii_def list_all_iff dest: in_set_dropD)

lemma sep_drop: "Separator \<notin> set s \<Longrightarrow> Separator \<notin> set (drop k s)"
  by (auto dest: in_set_dropD)

lemma ascii_rune_width: "ascii s \<Longrightarrow> s \<noteq> [] \<Longrightarrow> rune_width s = 1"
  by (simp add: rune_width_def ascii_width)

lemma matchChunk_plain:
  "CHR ''['' \<notin> set chunk \<Longrightarrow> ascii s \<Longrightarrow> Separator \<notin> set s \<Longrightarrow>
   matchChunk failed chunk s
     = Some (if \<not> failed \<and> chunk_at chunk s then (drop (length chunk) s, True) else ([], False))"
proof (induction chunk arbitrary: failed s)
  case Nil
  then show ?case by (simp add: matchChunk.simps)
next
  case (Cons c chunk)
  from Cons.prems have nb: "c \<noteq> CHR ''[''" "CHR ''['' \<notin> set chunk" by auto
  show ?case
  proof (cases "failed \<or> s = []")
    case True
    then have "matchChunk failed (c # chunk) s = matchChunk True chunk s"
      using nb(1) by (auto simp: matchChunk.simps Let_def)
    also have "\<dots> = Some ([], False)"
      using Cons.IH [OF nb(2) Cons.prems(2,3), of True] by simp
    finally have l: "matchChunk failed (c # chunk) s = Some ([], False)" .
    have r: "\<not> (\<not> failed \<and> chunk_at (c # chunk) s)" using True by (cases s) auto
    show ?thesis unfolding l using r by simp
  next
    case False
    then obtain a s' where s: "s = a # s'" by (cases s) auto
    from Cons.prems s have p': "ascii s'" "Separator \<notin> set s'" "a \<noteq> Separator"
      by (auto simp: ascii_def)
    have w: "snd (DecodeRuneInString s) = 1"
      using ascii_width [OF Cons.prems(2)] s by simp
    show ?thesis
    proof (cases "c = CHR ''?''")
      case True
      with False s w p' have l: "matchChunk failed (c # chunk) s = matchChunk False chunk s'"
        by (simp add: matchChunk.simps Let_def)
      show ?thesis
        unfolding l Cons.IH [OF nb(2) p'(1,2), of False] using False True s by simp
    next
      case nq: False
      with False s nb have l: "matchChunk failed (c # chunk) s = matchChunk (c \<noteq> a) chunk s'"
        by (simp add: matchChunk.simps Let_def)
      show ?thesis
        unfolding l Cons.IH [OF nb(2) p'(1,2), of "c \<noteq> a"] using False nq s by auto
    qed
  qed
qed

lemma glob_Nil: "glob [] s = (s = [])"
  by (subst glob.simps) simp

lemma glob_chunk:
  "CHR ''*'' \<notin> set c \<Longrightarrow> ascii s \<Longrightarrow> Separator \<notin> set s \<Longrightarrow>
   glob (c @ rest) s = (chunk_at c s \<and> glob rest (drop (length c) s))"
proof (induction c arbitrary: s)
  case Nil
  then show ?case by simp
next
  case (Cons p c)
  from Cons.prems have ns: "p \<noteq> CHR ''*''" "CHR ''*'' \<notin> set c" by auto
  show ?case
  proof (cases s)
    case Nil
    then show ?thesis using ns(1) by (subst glob.simps) simp
  next
    case (Cons a s')
    with Cons.prems have p': "ascii s'" "Separator \<notin> set s'" "a \<noteq> Separator"
      by (auto simp: ascii_def)
    have w: "rune_width s = 1" using ascii_rune_width [OF Cons.prems(2)] Cons by simp
    have "glob ((p # c) @ rest) s
            = (if p = CHR ''?'' then glob (c @ rest) s' else a = p \<and> glob (c @ rest) s')"
      using ns(1) Cons w p'(3) by (subst glob.simps) simp
    with Cons.IH [OF ns(2) p'(1,2)] Cons show ?thesis by auto
  qed
qed

lemma glob_star:
  "ascii s \<Longrightarrow> Separator \<notin> set s \<Longrightarrow> glob (CHR ''*'' # q) s = (\<exists>k. glob q (drop k s))"
proof (induction s)
  case Nil
  then show ?case by (subst glob.simps) simp
next
  case (Cons a s)
  then have p': "ascii s" "Separator \<notin> set s" "a \<noteq> Separator" by (auto simp: ascii_def)
  have w: "rune_width (a # s) = 1" using ascii_rune_width [OF Cons.prems(1)] by simp
  have "glob (CHR ''*'' # q) (a # s) = (glob q (a # s) \<or> glob (CHR ''*'' # q) s)"
    using w p'(3) by (subst glob.simps) simp
  also have "\<dots> = (glob q (a # s) \<or> (\<exists>k. glob q (drop k s)))"
    using Cons.IH [OF p'(1,2)] by simp
  also have "\<dots> = (\<exists>k. glob q (drop k (a # s)))"
  proof
    assume "glob q (a # s) \<or> (\<exists>k. glob q (drop k s))"
    then show "\<exists>k. glob q (drop k (a # s))"
    proof
      assume "glob q (a # s)"
      then have "glob q (drop 0 (a # s))" by simp
      then show ?thesis by blast
    next
      assume "\<exists>k. glob q (drop k s)"
      then obtain k where "glob q (drop (Suc k) (a # s))" by auto
      then show ?thesis by blast
    qed
  next
    assume "\<exists>k. glob q (drop k (a # s))"
    then obtain k where k: "glob q (drop k (a # s))" by blast
    show "glob q (a # s) \<or> (\<exists>k. glob q (drop k s))"
    proof (cases k)
      case 0
      with k show ?thesis by simp
    next
      case (Suc j)
      with k have "glob q (drop j s)" by simp
      then show ?thesis by blast
    qed
  qed
  finally show ?case .
qed

lemma glob_stars:
  "stars \<noteq> [] \<Longrightarrow> \<forall>c \<in> set stars. c = CHR ''*'' \<Longrightarrow> ascii s \<Longrightarrow> Separator \<notin> set s \<Longrightarrow>
   glob (stars @ q) s = (\<exists>k. glob q (drop k s))"
proof (induction stars arbitrary: s)
  case Nil
  then show ?case by simp
next
  case (Cons c stars)
  then have c: "c = CHR ''*''" by simp
  show ?case
  proof (cases "stars = []")
    case True
    with c Cons.prems show ?thesis by (simp add: glob_star)
  next
    case False
    have "glob ((c # stars) @ q) s = (\<exists>k. glob (stars @ q) (drop k s))"
      using c Cons.prems by (simp add: glob_star)
    also have "\<dots> = (\<exists>k j. glob q (drop j (drop k s)))"
      using Cons.IH [OF False _ ascii_drop sep_drop] Cons.prems by simp
    also have "\<dots> = (\<exists>k. glob q (drop k s))"
    proof
      assume "\<exists>k j. glob q (drop j (drop k s))"
      then obtain k j where "glob q (drop (j + k) s)" by auto
      then show "\<exists>k. glob q (drop k s)" by blast
    next
      assume "\<exists>k. glob q (drop k s)"
      then obtain k where "glob q (drop k (drop 0 s))" by auto
      then show "\<exists>k j. glob q (drop j (drop k s))" by blast
    qed
    finally show ?thesis .
  qed
qed

lemma scan_end_plain:
  "CHR ''['' \<notin> set p \<Longrightarrow> scan_end False p = length (takeWhile (\<lambda>c. c \<noteq> CHR ''*'') p)"
  by (induction p) auto

lemma scanChunk_plain:
  assumes "CHR ''['' \<notin> set pattern"
  shows "scanChunk pattern
           = (pattern \<noteq> [] \<and> hd pattern = CHR ''*'',
              takeWhile (\<lambda>c. c \<noteq> CHR ''*'') (dropWhile (\<lambda>c. c = CHR ''*'') pattern),
              dropWhile (\<lambda>c. c \<noteq> CHR ''*'') (dropWhile (\<lambda>c. c = CHR ''*'') pattern))"
proof -
  have "CHR ''['' \<notin> set (dropWhile (\<lambda>c. c = CHR ''*'') pattern)"
    using assms by (auto dest: set_dropWhileD)
  from scan_end_plain [OF this] show ?thesis
    by (simp add: scanChunk_def Let_def takeWhile_eq_take [symmetric] dropWhile_eq_drop [symmetric])
qed


lemma chunk_at_length: "chunk_at c s \<Longrightarrow> length c \<le> length s"
  by (induction c s rule: chunk_at.induct) auto

lemma ok_at_Suc: "ok_at chunk l (a # s) (Suc j) = ok_at chunk l s j"
  by (simp add: ok_at_def)

lemma star_try_plain:
  assumes "CHR ''['' \<notin> set chunk"
  shows "ascii s \<Longrightarrow> Separator \<notin> set s \<Longrightarrow>
     \<exists>r. star_try chunk l s = Some r
        \<and> (case r of
             None \<Rightarrow> (\<forall>j. 1 \<le> j \<and> j \<le> length s \<longrightarrow> \<not> ok_at chunk l s j)
           | Some t \<Rightarrow>
               (\<exists>j. 1 \<le> j \<and> j \<le> length s \<and> ok_at chunk l s j \<and> t = drop (j + length chunk) s
                    \<and> (\<forall>i. 1 \<le> i \<and> i < j \<longrightarrow> \<not> ok_at chunk l s i)))"
proof (induction s)
  case Nil
  then show ?case by simp
next
  case (Cons a s)
  then have p': "ascii s" "Separator \<notin> set s" "a \<noteq> Separator" by (auto simp: ascii_def)
  note mc = matchChunk_plain [OF assms p'(1,2), of False, simplified]
  have ok1: "ok_at chunk l (a # s) 1 = (chunk_at chunk s \<and> \<not> (l \<and> drop (length chunk) s \<noteq> []))"
    by (simp add: ok_at_def)
  show ?case
  proof (cases "ok_at chunk l (a # s) 1")
    case True
    then have "star_try chunk l (a # s) = Some (Some (drop (length chunk) s))"
      using p'(3) mc ok1 by simp
    moreover have "\<exists>j. 1 \<le> j \<and> j \<le> length (a # s) \<and> ok_at chunk l (a # s) j
                      \<and> drop (length chunk) s = drop (j + length chunk) (a # s)
                      \<and> (\<forall>i. 1 \<le> i \<and> i < j \<longrightarrow> \<not> ok_at chunk l (a # s) i)"
      using True by (intro exI [of _ 1]) simp
    ultimately show ?thesis by simp
  next
    case False
    then have eq: "star_try chunk l (a # s) = star_try chunk l s"
      using p'(3) mc ok1 by auto
    from Cons.IH [OF p'(1,2)] obtain r where
      r: "star_try chunk l s = Some r"
      and c: "case r of
             None \<Rightarrow> (\<forall>j. 1 \<le> j \<and> j \<le> length s \<longrightarrow> \<not> ok_at chunk l s j)
           | Some t \<Rightarrow>
               (\<exists>j. 1 \<le> j \<and> j \<le> length s \<and> ok_at chunk l s j \<and> t = drop (j + length chunk) s
                    \<and> (\<forall>i. 1 \<le> i \<and> i < j \<longrightarrow> \<not> ok_at chunk l s i))"
      by blast
    show ?thesis
    proof (cases r)
      case None
      have "\<not> ok_at chunk l (a # s) j" if "1 \<le> j" "j \<le> length (a # s)" for j
      proof (cases "j = 1")
        case True
        with False show ?thesis by simp
      next
        case nj: False
        with that obtain j' where j': "j = Suc j'" "1 \<le> j'" "j' \<le> length s"
          by (cases j) auto
        with c None show ?thesis by (simp add: ok_at_Suc)
      qed
      with eq r None show ?thesis by simp
    next
      case (Some t)
      with c obtain j where j: "1 \<le> j" "j \<le> length s" "ok_at chunk l s j"
        "t = drop (j + length chunk) s" "\<forall>i. 1 \<le> i \<and> i < j \<longrightarrow> \<not> ok_at chunk l s i"
        by auto
      have min: "\<not> ok_at chunk l (a # s) i" if "1 \<le> i" "i < Suc j" for i
      proof (cases "i = 1")
        case True
        with False show ?thesis by simp
      next
        case ni: False
        with that obtain i' where i': "i = Suc i'" "1 \<le> i'" "i' < j" by (cases i) auto
        with j(5) show ?thesis by (simp add: ok_at_Suc)
      qed
      have "\<exists>j'. 1 \<le> j' \<and> j' \<le> length (a # s) \<and> ok_at chunk l (a # s) j'
                  \<and> t = drop (j' + length chunk) (a # s)
                  \<and> (\<forall>i. 1 \<le> i \<and> i < j' \<longrightarrow> \<not> ok_at chunk l (a # s) i)"
        using j min by (intro exI [of _ "Suc j"]) (simp add: ok_at_Suc)
      with eq r Some show ?thesis by simp
    qed
  qed
qed

lemma glob_star_mono:
  assumes "rest \<noteq> []" "hd rest = CHR ''*''" "ascii t" "Separator \<notin> set t" "glob rest (drop k t)"
  shows "glob rest t"
proof -
  from assms(1,2) obtain r where r: "rest = CHR ''*'' # r" by (cases rest) auto
  from assms(5) have "\<exists>j. glob r (drop j (drop k t))"
    using glob_star [OF ascii_drop [OF assms(3)] sep_drop [OF assms(4)], of r k] r by simp
  then obtain j where "glob r (drop (j + k) t)" by auto
  then show ?thesis using glob_star [OF assms(3,4), of r] r by blast
qed

lemma filepath_Match_glob:
  assumes "CHR ''['' \<notin> set pattern" "ascii name" "Separator \<notin> set name"
  shows "filepath_Match pattern name = glob pattern name"
  using assms
proof (induction "length pattern" arbitrary: pattern name rule: less_induct)
  case less
  show ?case
  proof (cases "pattern = []")
    case True
    then show ?thesis by (subst filepath_Match.simps) (simp add: glob_Nil)
  next
    case False
    define stars where "stars = takeWhile (\<lambda>c. c = CHR ''*'') pattern"
    define p where "p = dropWhile (\<lambda>c. c = CHR ''*'') pattern"
    define chunk where "chunk = takeWhile (\<lambda>c. c \<noteq> CHR ''*'') p"
    define rest where "rest = dropWhile (\<lambda>c. c \<noteq> CHR ''*'') p"
    have pat: "pattern = stars @ chunk @ rest"
      by (simp add: stars_def p_def chunk_def rest_def)
    have st: "\<forall>c \<in> set stars. c = CHR ''*''"
      by (auto simp: stars_def dest: set_takeWhileD)
    have star: "(pattern \<noteq> [] \<and> hd pattern = CHR ''*'') = (stars \<noteq> [])"
      using False by (cases pattern) (auto simp: stars_def)
    have nc: "CHR ''*'' \<notin> set chunk"
      by (auto simp: chunk_def dest: set_takeWhileD)
    have "set pattern = set stars \<union> set chunk \<union> set rest"
      by (subst pat) auto
    with less.prems(1) have nb: "CHR ''['' \<notin> set chunk" "CHR ''['' \<notin> set rest" by auto
    have sc: "scanChunk pattern = (stars \<noteq> [], chunk, rest)"
      using scanChunk_plain [OF less.prems(1)] star by (simp add: p_def chunk_def rest_def)
    have hp: "p = [] \<or> hd p \<noteq> CHR ''*''"
      unfolding p_def using hd_dropWhile [of "\<lambda>c. c = CHR ''*''" pattern] by auto
    have ne: "stars \<noteq> [] \<or> chunk \<noteq> []"
    proof (cases "stars = []")
      case True
      with star False have "hd pattern \<noteq> CHR ''*''" by simp
      with False have "chunk \<noteq> []" by (cases pattern) (auto simp: chunk_def p_def)
      then show ?thesis by simp
    qed simp
    have len: "length rest < length pattern"
      using ne by (subst pat) auto
    have hr: "rest = [] \<or> hd rest = CHR ''*''"
      unfolding rest_def using hd_dropWhile [of "\<lambda>c. c \<noteq> CHR ''*''" p] by auto
    have IH: "filepath_Match rest t = glob rest t" if "ascii t" "Separator \<notin> set t" for t
      using less.hyps [OF len nb(2) that] .
    have mc: "matchChunk False chunk t
                = Some (if chunk_at chunk t then (drop (length chunk) t, True) else ([], False))"
      if "ascii t" "Separator \<notin> set t" for t
      using matchChunk_plain [OF nb(1) that, of False] by simp
    have spec: "glob pattern name
                  = (if stars \<noteq> [] then
                       (\<exists>k. chunk_at chunk (drop k name) \<and> glob rest (drop (k + length chunk) name))
                     else chunk_at chunk name \<and> glob rest (drop (length chunk) name))"
    proof (cases "stars = []")
      case True
      with pat have "pattern = chunk @ rest" by simp
      with glob_chunk [OF nc less.prems(2,3), of rest] True show ?thesis by simp
    next
      case ns: False
      have "glob pattern name = (\<exists>k. glob (chunk @ rest) (drop k name))"
        using glob_stars [OF ns st less.prems(2,3), of "chunk @ rest"] pat by simp
      also have "\<dots> = (\<exists>k. chunk_at chunk (drop k name) \<and> glob rest (drop (k + length chunk) name))"
        using glob_chunk [where rest = rest, OF nc ascii_drop [OF less.prems(2)] sep_drop [OF less.prems(3)]]
        by (simp add: add.commute)
      finally show ?thesis using ns by simp
    qed
    let ?t0 = "drop (length chunk) name"
    have a0: "ascii ?t0" "Separator \<notin> set ?t0"
      using less.prems(2,3) by (simp_all add: ascii_drop sep_drop)
    show ?thesis
    proof (cases "stars \<noteq> [] \<and> chunk = []")
      case True
      with hp have "p = []" by (cases p) (auto simp: chunk_def)
      then have r0: "rest = []" by (simp add: rest_def)
      have "filepath_Match pattern name = True"
        using False sc True less.prems(3) by (subst filepath_Match.simps) simp
      moreover have "glob pattern name"
        unfolding spec using True r0 by (auto simp: glob_Nil intro: exI [of _ "length name"])
      ultimately show ?thesis by simp
    next
      case nt: False
      with ne have cne: "chunk \<noteq> []" by auto
      have go: "filepath_Match pattern name
                  = (if chunk_at chunk name \<and> (?t0 = [] \<or> rest \<noteq> []) then filepath_Match rest ?t0
                     else if stars \<noteq> [] then
                       (case star_try chunk (rest = []) name of
                          None \<Rightarrow> False
                        | Some None \<Rightarrow> False
                        | Some (Some t') \<Rightarrow> filepath_Match rest t')
                     else False)"
        using False sc nt mc [OF less.prems(2,3)]
        by (subst filepath_Match.simps) auto
      have okk: "ok_at chunk (rest = []) name k \<and> k < length name"
        if "chunk_at chunk (drop k name)" "glob rest (drop (k + length chunk) name)" for k
      proof -
        from chunk_at_length [OF that(1)] cne have "k < length name" by (cases "k < length name") auto
        moreover have "drop (k + length chunk) name = []" if "rest = []"
          using \<open>glob rest (drop (k + length chunk) name)\<close> that by (simp add: glob_Nil)
        ultimately show ?thesis using that(1) by (auto simp: ok_at_def)
      qed
      have ok0: "ok_at chunk (rest = []) name 0 = (chunk_at chunk name \<and> (?t0 = [] \<or> rest \<noteq> []))"
        by (auto simp: ok_at_def)
      show ?thesis
      proof (cases "chunk_at chunk name \<and> (?t0 = [] \<or> rest \<noteq> [])")
        case True
        then have g: "filepath_Match pattern name = glob rest ?t0"
          unfolding go using IH [OF a0] by simp
        show ?thesis
        proof (cases "stars = []")
          case True
          with spec \<open>chunk_at chunk name \<and> (?t0 = [] \<or> rest \<noteq> [])\<close> g show ?thesis by simp
        next
          case ns: False
          have "(\<exists>k. chunk_at chunk (drop k name) \<and> glob rest (drop (k + length chunk) name))
                  = glob rest ?t0"
          proof
            assume "\<exists>k. chunk_at chunk (drop k name) \<and> glob rest (drop (k + length chunk) name)"
            then obtain k where k: "chunk_at chunk (drop k name)"
              "glob rest (drop (k + length chunk) name)" by blast
            show "glob rest ?t0"
            proof (cases "rest = []")
              case True
              with \<open>chunk_at chunk name \<and> (?t0 = [] \<or> rest \<noteq> [])\<close> show ?thesis
                by (simp add: glob_Nil)
            next
              case nr: False
              with hr have h: "hd rest = CHR ''*''" by simp
              from k(2) have "glob rest (drop k ?t0)" by (simp add: add.commute)
              from glob_star_mono [OF nr h a0 this] show ?thesis .
            qed
          next
            assume "glob rest ?t0"
            with True have "chunk_at chunk (drop 0 name) \<and> glob rest (drop (0 + length chunk) name)"
              by simp
            then show "\<exists>k. chunk_at chunk (drop k name) \<and> glob rest (drop (k + length chunk) name)"
              by blast
          qed
          with spec ns g show ?thesis by simp
        qed
      next
        case nm: False
        show ?thesis
        proof (cases "stars = []")
          case True
          then have "filepath_Match pattern name = False"
            by (subst go, subst if_not_P [OF nm]) simp
          moreover have "\<not> (chunk_at chunk name \<and> glob rest ?t0)"
            using nm by (auto simp: glob_Nil)
          ultimately show ?thesis using spec True by simp
        next
          case ns: False
          from star_try_plain [OF nb(1) less.prems(2,3), of "rest = []"] obtain r where
            r: "star_try chunk (rest = []) name = Some r"
            and c: "case r of
               None \<Rightarrow> (\<forall>j. 1 \<le> j \<and> j \<le> length name \<longrightarrow> \<not> ok_at chunk (rest = []) name j)
             | Some t \<Rightarrow>
                 (\<exists>j. 1 \<le> j \<and> j \<le> length name \<and> ok_at chunk (rest = []) name j
                      \<and> t = drop (j + length chunk) name
                      \<and> (\<forall>i. 1 \<le> i \<and> i < j \<longrightarrow> \<not> ok_at chunk (rest = []) name i))"
            by blast
          have n0: "\<not> ok_at chunk (rest = []) name 0" using nm ok0 by simp
          show ?thesis
          proof (cases r)
            case None
            then have "filepath_Match pattern name = False"
              using ns r by (subst go, subst if_not_P [OF nm]) simp
            moreover have "\<not> (\<exists>k. chunk_at chunk (drop k name) \<and> glob rest (drop (k + length chunk) name))"
            proof
              assume "\<exists>k. chunk_at chunk (drop k name) \<and> glob rest (drop (k + length chunk) name)"
              then obtain k where "chunk_at chunk (drop k name)"
                "glob rest (drop (k + length chunk) name)" by blast
              from okk [OF this] have k: "ok_at chunk (rest = []) name k" "k < length name" by simp_all
              with n0 have "1 \<le> k" by (cases k) auto
              with c None k show False by auto
            qed
            ultimately show ?thesis using spec ns by simp
          next
            case (Some t)
            with c obtain j where j: "1 \<le> j" "j \<le> length name" "ok_at chunk (rest = []) name j"
              "t = drop (j + length chunk) name"
              "\<forall>i. 1 \<le> i \<and> i < j \<longrightarrow> \<not> ok_at chunk (rest = []) name i"
              by auto
            have at: "ascii t" "Separator \<notin> set t"
              using less.prems(2,3) j(4) by (simp_all add: ascii_drop sep_drop)
            have g: "filepath_Match pattern name = glob rest t"
              using ns r Some IH [OF at] by (subst go, subst if_not_P [OF nm]) simp
            have "(\<exists>k. chunk_at chunk (drop k name) \<and> glob rest (drop (k + length chunk) name))
                    = glob rest t"
            proof
              assume "glob rest t"
              with j(3,4) show "\<exists>k. chunk_at chunk (drop k name) \<and> glob rest (drop (k + length chunk) name)"
                by (auto simp: ok_at_def)
            next
              assume "\<exists>k. chunk_at chunk (drop k name) \<and> glob rest (drop (k + length chunk) name)"
              then obtain k where kk: "chunk_at chunk (drop k name)"
                "glob rest (drop (k + length chunk) name)" by blast
              from okk [OF this] have k: "ok_at chunk (rest = []) name k" "k < length name" by simp_all
              with n0 have "1 \<le> k" by (cases k) auto
              with j(5) k(1) have jk: "j \<le> k" by (cases "k < j") auto
              show "glob rest t"
              proof (cases "rest = []")
                case True
                with j(3,4) show ?thesis by (simp add: ok_at_def glob_Nil)
              next
                case nr: False
                with hr have h: "hd rest = CHR ''*''" by simp
                have "drop (k + length chunk) name = drop (k - j) t"
                  using jk j(4) by simp
                with kk(2) have "glob rest (drop (k - j) t)" by simp
                from glob_star_mono [OF nr h at this] show ?thesis .
              qed
            qed
            with spec ns g show ?thesis by simp
          qed
        qed
      qed
    qed
  qed
qed

lemma Match_glob:
  assumes "CHR ''['' \<notin> set pattern" "ascii path"
  shows "Match pattern path
           = Some (segment_match glob (Split (ToSlash pattern) (CHR ''/''))
                     (Split (ToSlash path) (CHR ''/'')))"
proof -
  let ?pp = "Split (ToSlash pattern) (CHR ''/'')"
  let ?ps = "Split (ToSlash path) (CHR ''/'')"
  have nb: "CHR ''['' \<notin> set (ToSlash pattern)"
    using assms(1) by (auto simp: ToSlash_def ReplaceAll_def)
  have ns: "Separator \<notin> set (ToSlash path)"
    by (auto simp: ToSlash_def ReplaceAll_def Separator_def bs_def)
  have as: "ascii (ToSlash path)"
    using assms(2) by (auto simp: ToSlash_def ReplaceAll_def ascii_def list_all_iff)
  have "filepath_Match p q = glob p q" if "p \<in> set ?pp" "q \<in> set ?ps" for p q
  proof (rule filepath_Match_glob)
    from Split_set [OF that(1)] nb show "CHR ''['' \<notin> set p" by auto
    from Split_set [OF that(2)] ns show "Separator \<notin> set q" by auto
    from Split_set [OF that(2)] as show "ascii q" by (auto simp: ascii_def list_all_iff)
  qed
  from segment_match_cong [of ?pp ?ps filepath_Match glob, OF this] Match_refines [of pattern path]
  show ?thesis by simp
qed

lemma glob_question:
  assumes "ascii seg" "Separator \<notin> set seg"
  shows "glob (CHR ''?'' # q) seg = (seg \<noteq> [] \<and> glob q (tl seg))"
proof (cases seg)
  case Nil
  then show ?thesis by (subst glob.simps) simp
next
  case (Cons a s)
  with assms have "rune_width seg = 1" "a \<noteq> Separator" by (auto simp: ascii_rune_width)
  with Cons show ?thesis by (subst glob.simps) simp
qed

lemma glob_byte:
  "c \<noteq> CHR ''*'' \<Longrightarrow> c \<noteq> CHR ''?'' \<Longrightarrow>
   glob (c # q) seg = (seg \<noteq> [] \<and> hd seg = c \<and> glob q (tl seg))"
  by (subst glob.simps) simp

section \<open>Match: whole segments for \<open>**\<close>, glob rules inside a segment\<close>

text \<open>
  Claim C4 as stated fails for names with characters of several bytes.  \<open>filepath.Match\<close>
  takes one rune for a \<open>?\<close> where it tries a chunk, but after a \<open>*\<close> it tries the chunk at
  every byte, also inside a character, where each byte counts as a rune of its own.  The
  name made of the Euro sign (the bytes E2 82 AC) and \<open>a\<close> has two characters, yet it
  matches \<open>*??a\<close>, which asks for at least three: the star takes the byte E2 and the two
  question marks the bytes 82 and AC.  By the glob rules the name does not match.
\<close>

theorem Match_question_inside_character:
  "filepath_Match ''*??a'' [CHR 0xE2, CHR 0x82, CHR 0xAC, CHR ''a'']
   \<and> \<not> glob ''*??a'' [CHR 0xE2, CHR 0x82, CHR 0xAC, CHR ''a'']
   \<and> Match ''*??a'' [CHR 0xE2, CHR 0x82, CHR 0xAC, CHR ''a''] = Some True
   \<and> \<not> segment_match glob [''*??a''] [[CHR 0xE2, CHR 0x82, CHR 0xAC, CHR ''a'']]
   \<and> DecodeRuneInString [CHR 0xE2, CHR 0x82, CHR 0xAC, CHR ''a''] = (0x20AC, 3)"
  by code_simp

text \<open>
  Claim C4, amended.  \<open>Match\<close> never panics and is the segment-wise match of the
  slash-separated segments of pattern and path: a \<open>**\<close> segment matches zero or more
  whole segments, every other pattern segment is matched against one path segment by
  \<open>filepath.Match\<close>, and the answer is true only when pattern and path are used up
  together.  For a pattern without a character class and a path of ASCII characters,
  \<open>filepath.Match\<close> on the segments is the standard glob match \<open>glob\<close>: the empty pattern
  matches the empty segment, \<open>*\<close> matches any run of characters of the segment, \<open>?\<close> any
  one character, and any other byte itself.  The pattern \<open>c:/**/*.txt\<close> matches
  \<open>c:/foo/bar/baz.txt\<close>.
\<close>

theorem Match_segmentwise:
  "Match pattern path
     = Some (segment_match filepath_Match (Split (ToSlash pattern) (CHR ''/''))
               (Split (ToSlash path) (CHR ''/'')))
   \<and> segment_match gm [] ps = (ps = [])
   \<and> segment_match gm (''**'' # pats) ps
       = (\<exists>k \<in> {0 .. length ps}. segment_match gm pats (drop k ps))
   \<and> (p \<noteq> ''**'' \<longrightarrow>
        segment_match gm (p # pats) ps
          = (ps \<noteq> [] \<and> gm p (hd ps) \<and> segment_match gm pats (tl ps)))
   \<and> (CHR ''['' \<notin> set pattern \<and> ascii path \<longrightarrow>
        Match pattern path
          = Some (segment_match glob (Split (ToSlash pattern) (CHR ''/''))
                    (Split (ToSlash path) (CHR ''/''))))
   \<and> glob [] seg = (seg = [])
   \<and> (ascii seg \<and> Separator \<notin> set seg \<longrightarrow>
        glob (CHR ''*'' # q) seg = (\<exists>k. glob q (drop k seg))
        \<and> glob (CHR ''?'' # q) seg = (seg \<noteq> [] \<and> glob q (tl seg)))
   \<and> (c \<noteq> CHR ''*'' \<and> c \<noteq> CHR ''?'' \<longrightarrow>
        glob (c # q) seg = (seg \<noteq> [] \<and> hd seg = c \<and> glob q (tl seg)))
   \<and> Match ''c:/**/*.txt'' ''c:/foo/bar/baz.txt'' = Some True"
proof -
  have ex: "Match ''c:/**/*.txt'' ''c:/foo/bar/baz.txt'' = Some True"
    by code_simp
  have sm: "segment_match gm (p # pats) ps
              = (ps \<noteq> [] \<and> gm p (hd ps) \<and> segment_match gm pats (tl ps))"
    if "p \<noteq> ''**''"
    using that by (cases ps) auto
  show ?thesis
    using Match_refines [of pattern path] Match_glob [of pattern path] sm ex
      glob_Nil [of seg] glob_star [of seg q] glob_question [of seg q] glob_byte [of c q seg]
    by simp
qed

theorem Match_segmentwise_witness:
  "Match ''c:/**/*.md'' (''c:'' @ [bs] @ ''docs/a.md'') = Some True
   \<and> segment_match glob [''c:'', ''**'', ''*.md''] [''c:'', ''docs'', ''a.md'']
   \<and> Match ''c:/*.md'' (''c:'' @ [bs] @ ''docs/a.md'') = Some False
   \<and> \<not> segment_match glob [''c:'', ''*.md''] [''c:'', ''docs'', ''a.md'']
   \<and> glob ''?.md'' ''a.md'' \<and> \<not> glob ''?.md'' ''ab.md'' \<and> glob ''*.md'' ''ab.md''"
proof -
  have a: "Match ''c:/**/*.md'' (''c:'' @ [bs] @ ''docs/a.md'') = Some True"
    "Match ''c:/*.md'' (''c:'' @ [bs] @ ''docs/a.md'') = Some False"
    by code_simp+
  have h: "CHR ''['' \<notin> set ''c:/**/*.md''" "CHR ''['' \<notin> set ''c:/*.md''"
    "ascii (''c:'' @ [bs] @ ''docs/a.md'')"
    by code_simp+
  have s: "Split (ToSlash ''c:/**/*.md'') (CHR ''/'') = [''c:'', ''**'', ''*.md'']"
    "Split (ToSlash (''c:'' @ [bs] @ ''docs/a.md'')) (CHR ''/'') = [''c:'', ''docs'', ''a.md'']"
    "Split (ToSlash ''c:/*.md'') (CHR ''/'') = [''c:'', ''*.md'']"
    by code_simp+
  have g: "glob ''?.md'' ''a.md''" "\<not> glob ''?.md'' ''ab.md''" "glob ''*.md'' ''ab.md''"
    by code_simp+
  from Match_segmentwise [of "''c:/**/*.md''" "''c:'' @ [bs] @ ''docs/a.md''"] h
  have "Match ''c:/**/*.md'' (''c:'' @ [bs] @ ''docs/a.md'')
          = Some (segment_match glob [''c:'', ''**'', ''*.md''] [''c:'', ''docs'', ''a.md''])"
    unfolding s by blast
  moreover
  from Match_segmentwise [of "''c:/*.md''" "''c:'' @ [bs] @ ''docs/a.md''"] h
  have "Match ''c:/*.md'' (''c:'' @ [bs] @ ''docs/a.md'')
          = Some (segment_match glob [''c:'', ''*.md''] [''c:'', ''docs'', ''a.md''])"
    unfolding s by blast
  ultimately show ?thesis using a g by simp
qed

section \<open>Clean: the trailing dot after a drive\<close>

text \<open>
  Claim C2 (idempotence of \<open>Clean\<close>) fails on the code.  \<open>filepath.Clean\<close> keeps the
  drive-relative path \<open>c:..\<close>; the last step of \<open>Clean\<close> then removes one trailing dot and
  returns \<open>c:.\<close>, the form the step is there to prevent, and a second \<open>Clean\<close> returns
  \<open>c:\<close>.
\<close>

theorem Clean_drive_dotdot:
  "Clean ''c:..'' = ''c:.'' \<and> Clean (Clean ''c:..'') = ''c:'' \<and> Clean ''c:.'' = ''c:''"
  by code_simp

theorem Clean_drive_dotdot_witness: "Clean (Clean ''c:..'') \<noteq> Clean ''c:..''"
  using Clean_drive_dotdot by simp

section \<open>RelTo: the common prefix loop\<close>

lemma common_prefix_None:
  "i \<le> length parts \<Longrightarrow>
   (common_prefix parts other i n = None)
     = (length parts < length other
        \<and> (\<forall>j. i \<le> j \<and> j < length parts \<longrightarrow> EqualFold (parts ! j) (other ! j)))"
proof (induction parts other i n rule: common_prefix.induct)
  case (1 parts other i n)
  note eq = common_prefix.simps [of parts other i n]
  show ?case
  proof (cases "i < length other")
    case False
    with "1.prems" show ?thesis unfolding eq by simp
  next
    case True
    show ?thesis
    proof (cases "i \<ge> length parts")
      case ge: True
      with True "1.prems" show ?thesis unfolding eq by auto
    next
      case lt: False
      show ?thesis
      proof (cases "EqualFold (parts ! i) (other ! i)")
        case False
        with True lt show ?thesis unfolding eq by auto
      next
        case ef: True
        have "(\<forall>j. i \<le> j \<and> j < length parts \<longrightarrow> EqualFold (parts ! j) (other ! j))
              = (\<forall>j. i + 1 \<le> j \<and> j < length parts \<longrightarrow> EqualFold (parts ! j) (other ! j))"
        proof -
          have "(i \<le> j) = (j = i \<or> i + 1 \<le> j)" for j by arith
          with ef show ?thesis by auto
        qed
        with "1.IH" [OF True _ _] lt ef True show ?thesis unfolding eq by simp
      qed
    qed
  qed
qed

lemma RelTo_Panic_iff:
  "(RelTo p other w = Panic)
     = (IsRelTo p other w \<and> length (Parts p) < length (Parts other)
        \<and> (\<forall>j < length (Parts p). EqualFold (Parts p ! j) (Parts other ! j)))"
proof (cases "IsRelTo p other w")
  case False
  then show ?thesis by (simp add: RelTo_def)
next
  case True
  have "(RelTo p other w = Panic) = (common_prefix (Parts p) (Parts other) 0 0 = None)"
    using True by (auto simp: RelTo_def Let_def split: option.splits)
  with True show ?thesis by (simp add: common_prefix_None)
qed

text \<open>
  Claim C3 fails on the code.  \<open>RelTo\<close> fails with \<open>ErrNotRelative\<close> exactly when \<open>IsRelTo\<close>
  is false, but it does not always return a path or a typed failure otherwise: when
  \<open>IsRelTo\<close> holds, \<open>other\<close> has more parts than the receiver and all parts of the receiver
  agree with those of \<open>other\<close>, the loop over \<open>otherParts\<close> reads \<open>parts[len(parts)]\<close> and the
  process panics.  With \<open>walkUp\<close> the test \<open>IsRelTo\<close> only compares the anchors, so this
  happens for \<open>c:\\<close> relative to \<open>c:\foo\<close>.
\<close>

theorem RelTo_panics:
  "((RelTo p other w = Failure ErrNotRelative) = (\<not> IsRelTo p other w))
   \<and> ((RelTo p other w = Panic)
        = (IsRelTo p other w \<and> length (Parts p) < length (Parts other)
           \<and> (\<forall>j < length (Parts p). EqualFold (Parts p ! j) (Parts other ! j))))
   \<and> IsRelTo (NewPureWindowsPath [''c:/'']) (NewPureWindowsPath [''c:/foo'']) True
   \<and> Parts (NewPureWindowsPath [''c:/'']) = [''c:'' @ [bs]]
   \<and> Parts (NewPureWindowsPath [''c:/foo'']) = [''c:'' @ [bs], ''foo'']
   \<and> RelTo (NewPureWindowsPath [''c:/'']) (NewPureWindowsPath [''c:/foo'']) True = Panic"
proof -
  have "(RelTo p other w = Failure ErrNotRelative) = (\<not> IsRelTo p other w)"
    by (auto simp: RelTo_def Let_def split: option.splits)
  moreover have "IsRelTo (NewPureWindowsPath [''c:/'']) (NewPureWindowsPath [''c:/foo'']) True
   \<and> Parts (NewPureWindowsPath [''c:/'']) = [''c:'' @ [bs]]
   \<and> Parts (NewPureWindowsPath [''c:/foo'']) = [''c:'' @ [bs], ''foo'']
   \<and> RelTo (NewPureWindowsPath [''c:/'']) (NewPureWindowsPath [''c:/foo'']) True = Panic"
    by code_simp
  ultimately show ?thesis using RelTo_Panic_iff [of p other w] by simp
qed

theorem RelTo_panics_witness:
  "RelTo (NewPureWindowsPath [''c:/'']) (NewPureWindowsPath [''c:/foo'']) True
     \<noteq> Failure ErrNotRelative
   \<and> (\<forall>q. RelTo (NewPureWindowsPath [''c:/'']) (NewPureWindowsPath [''c:/foo'']) True \<noteq> Value q)
   \<and> RelTo (NewPureWindowsPath [''a/b'']) (NewPureWindowsPath [''c'']) True = Failure ErrNotRelative
   \<and> RelTo (NewPureWindowsPath [''/a/b'']) (NewPureWindowsPath [''/c'']) True
       = Value (''..'' @ [bs] @ ''a'' @ [bs] @ ''b'')"
proof -
  have a: "\<not> IsRelTo (NewPureWindowsPath [''a/b'']) (NewPureWindowsPath [''c'']) True"
    by code_simp
  have b: "RelTo (NewPureWindowsPath [''/a/b'']) (NewPureWindowsPath [''/c'']) True
       = Value (''..'' @ [bs] @ ''a'' @ [bs] @ ''b'')"
    by code_simp
  from RelTo_panics [of "NewPureWindowsPath [''a/b'']" "NewPureWindowsPath [''c'']" True] a
  have "RelTo (NewPureWindowsPath [''a/b'']) (NewPureWindowsPath [''c'']) True = Failure ErrNotRelative"
    by simp
  moreover from RelTo_panics [of p other w]
  have "RelTo (NewPureWindowsPath [''c:/'']) (NewPureWindowsPath [''c:/foo'']) True = Panic"
    by simp
  ultimately show ?thesis using b by simp
qed

section \<open>NewPureWindowsPath: a rooted segment after a drive\<close>

lemma rooted_no_drive: "HasPrefix seg [bs] \<Longrightarrow> \<not> has_drive seg"
  by (cases seg)
     (auto simp: HasPrefix_def has_drive_def drive_letter_len_def is_letter_def is_upper_def
        is_lower_def bs_def)

lemma merge_segment_rooted:
  assumes "HasPrefix (Clean seg) [bs]" "\<not> HasPrefix (Clean seg) [bs, bs]"
  shows "merge_segment path seg = (if has_drive_root path then take 2 path @ Clean seg else Clean seg)"
  using assms rooted_no_drive [OF assms(1)] by (simp add: merge_segment_def Let_def)

text \<open>
  Claim C5 fails on the code for a drive-relative accumulator.  For a cleaned segment that
  starts with exactly one backslash, the loop keeps the drive letter only when the
  accumulator matches \<open>(?i)^[A-Z]:\\\<close>, that is when the drive letter is followed by a
  backslash: then the result is the drive letter followed by the segment.  For every other
  accumulator, the drive-relative ones included, the segment replaces the whole path: for
  the accumulator \<open>c:foo\<close> and the segment \<open>\bar\<close> the result is \<open>\bar\<close> and the drive letter
  is lost, while for \<open>c:\foo\<close> it is \<open>c:\bar\<close>.
\<close>

theorem New_drive_relative_rooted:
  "(HasPrefix (Clean seg) [bs] \<and> \<not> HasPrefix (Clean seg) [bs, bs] \<and> has_drive_root path \<longrightarrow>
      merge_segment path seg = take 2 path @ Clean seg)
   \<and> (HasPrefix (Clean seg) [bs] \<and> \<not> HasPrefix (Clean seg) [bs, bs] \<and> has_drive path
        \<and> \<not> has_drive_root path \<longrightarrow> merge_segment path seg = Clean seg)
   \<and> Drive (NewPureWindowsPath [''c:foo'']) = ''c:''
   \<and> merge_segment ''c:foo'' ([bs] @ ''bar'') = [bs] @ ''bar''
   \<and> NewPureWindowsPath [''c:foo'', [bs] @ ''bar''] = [bs] @ ''bar''
   \<and> NewPureWindowsPath [''c:'' @ [bs] @ ''foo'', [bs] @ ''bar''] = ''c:'' @ [bs] @ ''bar''"
proof -
  have "Drive (NewPureWindowsPath [''c:foo'']) = ''c:''
   \<and> merge_segment ''c:foo'' ([bs] @ ''bar'') = [bs] @ ''bar''
   \<and> NewPureWindowsPath [''c:foo'', [bs] @ ''bar''] = [bs] @ ''bar''
   \<and> NewPureWindowsPath [''c:'' @ [bs] @ ''foo'', [bs] @ ''bar''] = ''c:'' @ [bs] @ ''bar''"
    by code_simp
  then show ?thesis using merge_segment_rooted [of seg path] by simp
qed

theorem New_drive_relative_rooted_witness:
  "NewPureWindowsPath [''c:foo'', [bs] @ ''bar''] \<noteq> ''c:'' @ [bs] @ ''bar''
   \<and> merge_segment (''c:'' @ [bs] @ ''foo'') ([bs] @ ''bar'') = ''c:'' @ [bs] @ ''bar''
   \<and> merge_segment ''c:foo'' ([bs] @ ''bar'') = [bs] @ ''bar''"
proof -
  have a: "Clean ([bs] @ ''bar'') = [bs] @ ''bar''" "HasPrefix ([bs] @ ''bar'') [bs]"
    "\<not> HasPrefix ([bs] @ ''bar'') [bs, bs]" "has_drive_root (''c:'' @ [bs] @ ''foo'')"
    "has_drive ''c:foo''" "\<not> has_drive_root ''c:foo''"
    by code_simp+
  from New_drive_relative_rooted [of "[bs] @ ''bar''" "''c:'' @ [bs] @ ''foo''"] a
  have 1: "merge_segment (''c:'' @ [bs] @ ''foo'') ([bs] @ ''bar'') = ''c:'' @ [bs] @ ''bar''"
    by simp
  from New_drive_relative_rooted [of "[bs] @ ''bar''" "''c:foo''"] a
  have 2: "merge_segment ''c:foo'' ([bs] @ ''bar'') = [bs] @ ''bar''"
    "NewPureWindowsPath [''c:foo'', [bs] @ ''bar''] = [bs] @ ''bar''"
    by simp_all
  from 1 2 show ?thesis by (simp add: bs_def)
qed

section \<open>WithName, WithStem, WithSuffix\<close>




section \<open>The history of a walk\<close>

lemma entered_append [simp]: "entered (xs @ ys) = entered xs @ entered ys"
  by (induction xs rule: entered.induct) auto

lemma nil_keys_append [simp]: "nil_keys (xs @ ys) = nil_keys xs @ nil_keys ys"
  by (induction xs rule: nil_keys.induct) auto

lemma walk_inv_refl: "walk_inv st st"
  by (auto simp: walk_inv_def extends_def intro: exI [of _ "[]"])

lemma extends_trans:
  assumes "extends st st1 new1" "extends st1 st2 new2"
  shows "extends st st2 (new1 @ new2)"
proof -
  from assms have d: "set (entered new1) \<inter> set (entered new2) = {}"
    by (auto simp: extends_def)
  from assms have n: "set (nil_keys new1) \<inter> set (nil_keys new2) = {}"
    using d by (auto simp: extends_def)
  show ?thesis
    using assms d n unfolding extends_def by auto
qed

lemma walk_inv_trans: "walk_inv st st1 \<Longrightarrow> walk_inv st1 st2 \<Longrightarrow> walk_inv st st2"
  unfolding walk_inv_def using extends_trans by blast

lemma walk_inv_fresh: "walk_inv st st' \<Longrightarrow> fresh st' k \<Longrightarrow> fresh st k"
  by (auto simp: walk_inv_def extends_def)

lemma call_fn_fields:
  assumes "call_fn fn key p cond st = (err, st')"
  shows "visited st' = visited st" "history st' = history st @ [Callback key p cond]"
  using assms by (auto simp: call_fn_def split: prod.splits)

lemma walk_inv_call_fn:
  assumes "call_fn fn key p (Some c) st = (err, st')"
  shows "walk_inv st st'"
  unfolding walk_inv_def extends_def
  using call_fn_fields [OF assms]
  by (intro exI [of _ "[Callback key p (Some c)]"]) (simp add: fresh_def)

lemma walk_inv_enter_cond:
  assumes "fresh st k" "call_fn fn (Some k) p (Some c) (enter k st) = (err, st')"
  shows "walk_inv st st' \<and> \<not> fresh st' k"
  unfolding walk_inv_def extends_def
  using call_fn_fields [OF assms(2)] assms(1)
  by (intro conjI exI [of _ "[Enter k, Callback (Some k) p (Some c)]"])
     (auto simp: fresh_def enter_def mark_def)

lemma walk_inv_enter_nil:
  assumes "fresh st k" "call_fn fn (Some k) p None (enter k st) = (err, st')"
  shows "walk_inv st st' \<and> \<not> fresh st' k"
  unfolding walk_inv_def extends_def
  using call_fn_fields [OF assms(2)] assms(1)
  by (intro conjI exI [of _ "[Enter k, Callback (Some k) p None]"])
     (auto simp: fresh_def enter_def mark_def)

lemma walk_inv_mark:
  assumes "walk_inv st st'" "\<not> fresh st' k"
  shows "walk_inv st (mark k 2 st')"
proof -
  from assms(1) obtain new where e: "extends st st' new" by (auto simp: walk_inv_def)
  have "extends st (mark k 2 st') new"
    using e assms(2) unfolding extends_def fresh_def mark_def by auto
  then show ?thesis by (auto simp: walk_inv_def)
qed

lemma link_step_Inl:
  assumes "link_step fs fn follow root rootAbs st = Inl (err, st')"
  shows "\<exists>p c. call_fn fn (Some rootAbs) p (Some c) st = (err, st')"
  using assms by (auto simp: link_step_def split: if_splits option.splits)

lemma link_step_Inr:
  "(link_step fs fn follow root rootAbs st = Inr root') = (next_root fs follow root rootAbs = Some root')"
  by (auto simp: link_step_def next_root_def split: option.splits)

lemma walk_history_step:
  assumes "walkRecursively fs fn follow arg st = Some y"
  shows "walk_inv st (snd y)"
proof (rule walkRecursively.raw_induct [where P = "\<lambda>fs fn follow arg st y. walk_inv st (snd y)",
      OF _ assms], goal_cases)
  case (1 walk fs fn follow arg st y)
  note IH = 1(1) and hyps = 1(2)
  show ?case
  proof (cases arg)
    case (Children cs)
    show ?thesis
    proof (cases cs)
      case Nil
      with Children hyps show ?thesis by (auto simp: walk_inv_refl)
    next
      case (Cons child rest)
      with Children hyps obtain err st1 where
        w1: "walk fs fn follow (Node child) st = Some (err, st1)"
        and r: "(if shouldStopWalk err then Some (err, st1)
                 else walk fs fn follow (Children rest) st1) = Some y"
        by (auto simp: bind_eq_Some_conv)
      from IH [OF w1] have i1: "walk_inv st st1" by simp
      show ?thesis
      proof (cases "shouldStopWalk err")
        case True
        with r i1 show ?thesis by auto
      next
        case False
        with r have "walk fs fn follow (Children rest) st1 = Some y" by simp
        from IH [OF this] i1 show ?thesis by (blast intro: walk_inv_trans)
      qed
    qed
  next
    case (Node root)
    show ?thesis
    proof (cases "ToAbs fs root")
      case None
      with Node hyps have "call_fn fn None root (Some ErrToAbs) st = y" by simp
      then show ?thesis using walk_inv_call_fn [of fn None root ErrToAbs st "fst y" "snd y"] by simp
    next
      case (Some rootAbs)
      show ?thesis
      proof (cases "fresh st rootAbs")
        case False
        then consider "visited st rootAbs = 1" | "visited st rootAbs \<noteq> 1" "visited st rootAbs = 2"
          by (auto simp: fresh_def)
        then show ?thesis
        proof cases
          case 1
          with Node Some hyps have "call_fn fn None rootAbs (Some ErrWalkCycle) st = y" by simp
          then show ?thesis
            using walk_inv_call_fn [of fn None rootAbs ErrWalkCycle st "fst y" "snd y"] by simp
        next
          case 2
          with Node Some hyps show ?thesis by (auto simp: walk_inv_refl)
        qed
      next
        case True
        then have v: "visited st rootAbs \<noteq> 1" "visited st rootAbs \<noteq> 2" by (auto simp: fresh_def)
        let ?st0 = "enter rootAbs st"
        from Node Some v hyps obtain err st' where
          body: "(case link_step fs fn follow root rootAbs ?st0 of
                    Inl res \<Rightarrow> Some res
                  | Inr root' \<Rightarrow>
                      (case call_fn fn (Some rootAbs) root' None ?st0 of
                         (err, st2) \<Rightarrow>
                           if shouldStopWalk err then Some (err, st2)
                           else if \<not> IsDir_nofollow fs root' then Some (None, st2)
                           else if err = Some WalkSkip then Some (None, st2)
                           else
                             (case ReadDir fs root' of
                                None \<Rightarrow> Some (call_fn fn (Some rootAbs) root' (Some ErrReadDir) st2)
                              | Some children \<Rightarrow> walk fs fn follow (Children children) st2)))
                 = Some (err, st')"
          and y: "y = (err, mark rootAbs 2 st')"
          by (auto simp: bind_eq_Some_conv)
        have "walk_inv st st' \<and> \<not> fresh st' rootAbs"
        proof (cases "link_step fs fn follow root rootAbs ?st0")
          case (Inl res)
          with body have "link_step fs fn follow root rootAbs ?st0 = Inl (err, st')" by simp
          from link_step_Inl [OF this] obtain p c where
            "call_fn fn (Some rootAbs) p (Some c) ?st0 = (err, st')" by blast
          from walk_inv_enter_cond [OF True this] show ?thesis .
        next
          case (Inr root')
          obtain e2 st2 where c2: "call_fn fn (Some rootAbs) root' None ?st0 = (e2, st2)"
            by (cases "call_fn fn (Some rootAbs) root' None ?st0") auto
          from walk_inv_enter_nil [OF True c2] have i2: "walk_inv st st2" "\<not> fresh st2 rootAbs"
            by simp_all
          show ?thesis
          proof (cases "shouldStopWalk e2 \<or> \<not> IsDir_nofollow fs root' \<or> e2 = Some WalkSkip")
            case True
            with body Inr c2 have "st' = st2" by (auto split: if_splits)
            with i2 show ?thesis by simp
          next
            case False
            show ?thesis
            proof (cases "ReadDir fs root'")
              case None
              with body Inr c2 False
              have c3: "call_fn fn (Some rootAbs) root' (Some ErrReadDir) st2 = (err, st')" by simp
              from walk_inv_call_fn [OF c3] i2(1) have "walk_inv st st'"
                by (blast intro: walk_inv_trans)
              moreover from call_fn_fields(1) [OF c3] i2(2) have "\<not> fresh st' rootAbs"
                by (simp add: fresh_def)
              ultimately show ?thesis by simp
            next
              case (Some children)
              with body Inr c2 False
              have "walk fs fn follow (Children children) st2 = Some (err, st')" by simp
              from IH [OF this] have i3: "walk_inv st2 st'" by simp
              with i2 show ?thesis using walk_inv_fresh walk_inv_trans by blast
            qed
          qed
        qed
        with y show ?thesis by (simp add: walk_inv_mark)
      qed
    qed
  qed
qed

section \<open>Without link-following the callback gets each path once\<close>

lemma nil_own_append [simp]: "nil_own fs (xs @ ys) = (nil_own fs xs \<and> nil_own fs ys)"
  by (simp add: nil_own_def)

lemma nil_own_paths: "nil_own fs es \<Longrightarrow> map (ToAbs fs) (nil_paths es) = map Some (nil_keys es)"
proof (induction es)
  case Nil
  show ?case by simp
next
  case (Cons e es)
  then have t: "map (ToAbs fs) (nil_paths es) = map Some (nil_keys es)" and o: "own_event fs e"
    by (simp_all add: nil_own_def)
  show ?case
  proof (cases e)
    case (Enter k)
    with t show ?thesis by simp
  next
    case (Callback key p cond)
    show ?thesis
    proof (cases cond)
      case None
      with o Callback obtain k where "key = Some k" "ToAbs fs p = Some k" by auto
      with t Callback None show ?thesis by simp
    next
      case (Some c)
      with t Callback show ?thesis by (cases key) simp_all
    qed
  qed
qed

lemma nil_own_call_fn:
  assumes "call_fn fn key p cond st = (err, st')" "nil_own fs (history st)"
    "cond = None \<longrightarrow> key \<noteq> None \<and> ToAbs fs p = key"
  shows "nil_own fs (history st')"
  using call_fn_fields(2) [OF assms(1)] assms(2,3) by (cases cond) (simp_all add: nil_own_def)

lemma walk_nofollow_own:
  assumes "walkRecursively fs fn False arg st = Some y" "nil_own fs (history st)"
  shows "nil_own fs (history (snd y))"
proof -
  have "\<not> False \<longrightarrow> nil_own fs (history st) \<longrightarrow> nil_own fs (history (snd y))"
  proof (rule walkRecursively.raw_induct
      [where P = "\<lambda>fs fn follow arg st y.
                    \<not> follow \<longrightarrow> nil_own fs (history st) \<longrightarrow> nil_own fs (history (snd y))",
        OF _ assms(1)], goal_cases)
    case (1 walk fs fn follow arg st y)
    note IH = 1(1) and hyps = 1(2)
    show ?case
    proof (intro impI)
      assume nf: "\<not> follow" and own: "nil_own fs (history st)"
      show "nil_own fs (history (snd y))"
      proof (cases arg)
        case (Children cs)
        show ?thesis
        proof (cases cs)
          case Nil
          with Children hyps own show ?thesis by auto
        next
          case (Cons child rest)
          with Children hyps obtain err st1 where
            w1: "walk fs fn follow (Node child) st = Some (err, st1)"
            and r: "(if shouldStopWalk err then Some (err, st1)
                     else walk fs fn follow (Children rest) st1) = Some y"
            by (auto simp: bind_eq_Some_conv)
          from IH [OF w1] nf own have o1: "nil_own fs (history st1)" by simp
          show ?thesis
          proof (cases "shouldStopWalk err")
            case True
            with r o1 show ?thesis by auto
          next
            case False
            with r have "walk fs fn follow (Children rest) st1 = Some y" by simp
            from IH [OF this] nf o1 show ?thesis by simp
          qed
        qed
      next
        case (Node root)
        show ?thesis
        proof (cases "ToAbs fs root")
          case None
          with Node hyps have "call_fn fn None root (Some ErrToAbs) st = (fst y, snd y)" by simp
          from nil_own_call_fn [OF this own] show ?thesis by simp
        next
          case (Some rootAbs)
          show ?thesis
          proof (cases "fresh st rootAbs")
            case False
            then consider "visited st rootAbs = 1"
              | "visited st rootAbs \<noteq> 1" "visited st rootAbs = 2"
              by (auto simp: fresh_def)
            then show ?thesis
            proof cases
              case 1
              with Node Some hyps
              have "call_fn fn None rootAbs (Some ErrWalkCycle) st = (fst y, snd y)" by simp
              from nil_own_call_fn [OF this own] show ?thesis by simp
            next
              case 2
              with Node Some hyps own show ?thesis by auto
            qed
          next
            case True
            then have v: "visited st rootAbs \<noteq> 1" "visited st rootAbs \<noteq> 2"
              by (auto simp: fresh_def)
            let ?st0 = "enter rootAbs st"
            have ls: "link_step fs fn follow root rootAbs ?st0 = Inr root"
              using nf by (simp add: link_step_def)
            have o0: "nil_own fs (history ?st0)"
              using own by (simp add: enter_def mark_def nil_own_def)
            obtain e2 st2 where c2: "call_fn fn (Some rootAbs) root None ?st0 = (e2, st2)"
              by (cases "call_fn fn (Some rootAbs) root None ?st0") auto
            from nil_own_call_fn [OF c2 o0] Some have o2: "nil_own fs (history st2)" by simp
            from Node Some v hyps ls c2 obtain err st' where
              body: "(if shouldStopWalk e2 then Some (e2, st2)
                      else if \<not> IsDir_nofollow fs root then Some (None, st2)
                      else if e2 = Some WalkSkip then Some (None, st2)
                      else
                        (case ReadDir fs root of
                           None \<Rightarrow> Some (call_fn fn (Some rootAbs) root (Some ErrReadDir) st2)
                         | Some children \<Rightarrow> walk fs fn follow (Children children) st2))
                     = Some (err, st')"
              and y: "y = (err, mark rootAbs 2 st')"
              by (auto simp: bind_eq_Some_conv)
            have "nil_own fs (history st')"
            proof (cases "shouldStopWalk e2 \<or> \<not> IsDir_nofollow fs root \<or> e2 = Some WalkSkip")
              case True
              with body have "st' = st2" by (auto split: if_splits)
              with o2 show ?thesis by simp
            next
              case False
              show ?thesis
              proof (cases "ReadDir fs root")
                case None
                with body False
                have "call_fn fn (Some rootAbs) root (Some ErrReadDir) st2 = (err, st')" by simp
                from nil_own_call_fn [OF this o2] show ?thesis by simp
              next
                case (Some children)
                with body False
                have "walk fs fn follow (Children children) st2 = Some (err, st')" by simp
                from IH [OF this] nf o2 show ?thesis by simp
              qed
            qed
            with y show ?thesis by (simp add: mark_def)
          qed
        qed
      qed
    qed
  qed
  with assms(2) show ?thesis by simp
qed

lemma walk_nofollow_paths:
  assumes "Walk fs fn False root s0 = Some (err, st)"
  shows "map (ToAbs fs) (nil_paths (history st)) = map Some (nil_keys (history st))"
    and "distinct (map (ToAbs fs) (nil_paths (history st)))"
proof -
  have "nil_own fs (history st)"
    using walk_nofollow_own [OF assms [unfolded Walk_def]] by (simp add: nil_own_def)
  then show m: "map (ToAbs fs) (nil_paths (history st)) = map Some (nil_keys (history st))"
    by (rule nil_own_paths)
  have "distinct (nil_keys (history st))"
    using walk_history_step [OF assms [unfolded Walk_def]]
    by (auto simp: walk_inv_def extends_def)
  then show "distinct (map (ToAbs fs) (nil_paths (history st)))"
    unfolding m by (simp add: distinct_map)
qed

section \<open>A walk over a closed list of paths returns\<close>

lemma finite_keys_of: "finite (keys_of fs ps)"
proof -
  have "keys_of fs ps \<subseteq> the ` (ToAbs fs ` set ps)"
    by (force simp: keys_of_def)
  then show ?thesis by (rule finite_subset) simp
qed

lemma unvisited_mono:
  assumes "walk_inv st st'"
  shows "unvisited fs ps st' \<le> unvisited fs ps st"
  unfolding unvisited_def
  using walk_inv_fresh [OF assms] finite_keys_of [of fs ps]
  by (intro card_mono) auto

lemma unvisited_enter:
  fixes st st' :: "'s walk_state"
  assumes "fresh st k" "k \<in> keys_of fs ps" "visited st' = visited (enter k st)"
  shows "unvisited fs ps st' < unvisited fs ps st"
  unfolding unvisited_def
proof (rule psubset_card_mono)
  show "finite {k \<in> keys_of fs ps. fresh st k}" using finite_keys_of [of fs ps] by simp
  have "k \<in> {k \<in> keys_of fs ps. fresh st k}" using assms by simp
  moreover have "k \<notin> {k \<in> keys_of fs ps. fresh st' k}"
    using assms(3) by (simp add: fresh_def enter_def mark_def)
  moreover have "{k \<in> keys_of fs ps. fresh st' k} \<subseteq> {k \<in> keys_of fs ps. fresh st k}"
    using assms(3) by (auto simp: fresh_def enter_def mark_def split: if_splits)
  ultimately show "{k \<in> keys_of fs ps. fresh st' k} \<subset> {k \<in> keys_of fs ps. fresh st k}"
    by blast
qed

lemma walk_closed_children:
  assumes "walk_closed fs follow ps" "p \<in> set ps" "ToAbs fs p = Some rootAbs"
    "next_root fs follow p rootAbs = Some root'" "IsDir_nofollow fs root'"
    "ReadDir fs root' = Some children"
  shows "set children \<subseteq> set ps"
proof -
  from assms(3-6) have "children_of fs follow p = children" by (simp add: children_of_def)
  with assms(1,2) show ?thesis by (auto simp: walk_closed_def list_all_iff)
qed

lemma walk_node_returns:
  fixes st :: "'s walk_state"
  assumes closed: "walk_closed fs follow ps" and p: "p \<in> set ps"
    and IH: "\<And>cs (st' :: 's walk_state). set cs \<subseteq> set ps \<Longrightarrow> unvisited fs ps st' < unvisited fs ps st
               \<Longrightarrow> \<exists>y. walkRecursively fs fn follow (Children cs) st' = Some y"
  shows "\<exists>y. walkRecursively fs fn follow (Node p) st = Some y"
proof (cases "ToAbs fs p")
  case None
  then show ?thesis by (subst walkRecursively.simps) simp
next
  case (Some rootAbs)
  then have key: "rootAbs \<in> keys_of fs ps" using p by (auto simp: keys_of_def)
  show ?thesis
  proof (cases "fresh st rootAbs")
    case False
    then show ?thesis using Some by (subst walkRecursively.simps) (auto simp: fresh_def)
  next
    case True
    then have v: "visited st rootAbs \<noteq> 1" "visited st rootAbs \<noteq> 2" by (auto simp: fresh_def)
    let ?st0 = "enter rootAbs st"
    have "\<exists>z. (case link_step fs fn follow p rootAbs ?st0 of
                  Inl res \<Rightarrow> Some res
                | Inr root' \<Rightarrow>
                    (case call_fn fn (Some rootAbs) root' None ?st0 of
                       (err, st2) \<Rightarrow>
                         if shouldStopWalk err then Some (err, st2)
                         else if \<not> IsDir_nofollow fs root' then Some (None, st2)
                         else if err = Some WalkSkip then Some (None, st2)
                         else
                           (case ReadDir fs root' of
                              None \<Rightarrow> Some (call_fn fn (Some rootAbs) root' (Some ErrReadDir) st2)
                            | Some children \<Rightarrow> walkRecursively fs fn follow (Children children) st2)))
               = Some z"
    proof (cases "link_step fs fn follow p rootAbs ?st0")
      case (Inl res)
      then show ?thesis by simp
    next
      case (Inr root')
      then have nr: "next_root fs follow p rootAbs = Some root'" by (simp add: link_step_Inr)
      obtain e2 st2 where c2: "call_fn fn (Some rootAbs) root' None ?st0 = (e2, st2)"
        by (cases "call_fn fn (Some rootAbs) root' None ?st0") auto
      from call_fn_fields(1) [OF c2] have "unvisited fs ps st2 < unvisited fs ps st"
        using unvisited_enter [OF True key] by simp
      then have "\<exists>y. walkRecursively fs fn follow (Children children) st2 = Some y"
        if "IsDir_nofollow fs root'" "ReadDir fs root' = Some children" for children
        using IH walk_closed_children [OF closed p Some nr that] by blast
      then show ?thesis using Inr c2 by (auto split: option.splits)
    qed
    then obtain z where
      "(case link_step fs fn follow p rootAbs ?st0 of
          Inl res \<Rightarrow> Some res
        | Inr root' \<Rightarrow>
            (case call_fn fn (Some rootAbs) root' None ?st0 of
               (err, st2) \<Rightarrow>
                 if shouldStopWalk err then Some (err, st2)
                 else if \<not> IsDir_nofollow fs root' then Some (None, st2)
                 else if err = Some WalkSkip then Some (None, st2)
                 else
                   (case ReadDir fs root' of
                      None \<Rightarrow> Some (call_fn fn (Some rootAbs) root' (Some ErrReadDir) st2)
                    | Some children \<Rightarrow> walkRecursively fs fn follow (Children children) st2)))
       = Some z" ..
    then show ?thesis
      using Some v by (subst walkRecursively.simps) (auto split: prod.splits)
  qed
qed

lemma walk_children_returns:
  fixes st :: "'s walk_state"
  assumes nodes: "\<And>p (st' :: 's walk_state). p \<in> set ps \<Longrightarrow> unvisited fs ps st' \<le> n
                    \<Longrightarrow> \<exists>y. walkRecursively fs fn follow (Node p) st' = Some y"
  shows "set cs \<subseteq> set ps \<Longrightarrow> unvisited fs ps st \<le> n
         \<Longrightarrow> \<exists>y. walkRecursively fs fn follow (Children cs) st = Some y"
proof (induction cs arbitrary: st)
  case Nil
  show ?case by (subst walkRecursively.simps) simp
next
  case (Cons c cs)
  from nodes [of c st] Cons.prems obtain err st1 where
    w1: "walkRecursively fs fn follow (Node c) st = Some (err, st1)" by auto
  from walk_history_step [OF w1] have "walk_inv st st1" by simp
  then have "unvisited fs ps st1 \<le> n"
    using unvisited_mono [of st st1 fs ps] Cons.prems(2) by simp
  with Cons.IH [of st1] Cons.prems(1)
  obtain y where "walkRecursively fs fn follow (Children cs) st1 = Some y" by auto
  with w1 show ?case
    by (subst walkRecursively.simps) auto
qed

lemma walk_returns:
  fixes st :: "'s walk_state"
  assumes closed: "walk_closed fs follow ps"
  shows "arg_in ps arg \<Longrightarrow> \<exists>y. walkRecursively fs fn follow arg st = Some y"
proof (induction "unvisited fs ps st" arbitrary: arg st rule: less_induct)
  case less
  have nodes_eq: "\<exists>y. walkRecursively fs fn follow (Node p) st' = Some y"
    if "p \<in> set ps" "unvisited fs ps st' = unvisited fs ps st" for p and st' :: "'s walk_state"
  proof (rule walk_node_returns [OF closed that(1)])
    fix cs and st'' :: "'s walk_state"
    assume "set cs \<subseteq> set ps" "unvisited fs ps st'' < unvisited fs ps st'"
    then show "\<exists>y. walkRecursively fs fn follow (Children cs) st'' = Some y"
      using less.hyps [of st'' "Children cs"] that(2) by simp
  qed
  have nodes: "\<exists>y. walkRecursively fs fn follow (Node p) st' = Some y"
    if "p \<in> set ps" "unvisited fs ps st' \<le> unvisited fs ps st" for p and st' :: "'s walk_state"
  proof (cases "unvisited fs ps st' = unvisited fs ps st")
    case True
    with that(1) show ?thesis by (rule nodes_eq)
  next
    case False
    with that(2) have "unvisited fs ps st' < unvisited fs ps st" by simp
    from less.hyps [OF this, of "Node p"] that(1) show ?thesis by simp
  qed
  show ?case
  proof (cases arg)
    case (Node p)
    with less.prems nodes [of p st] show ?thesis by simp
  next
    case (Children cs)
    with less.prems have "set cs \<subseteq> set ps" by simp
    from walk_children_returns [of ps fs "unvisited fs ps st" fn follow cs st, OF nodes this]
    show ?thesis using Children by simp
  qed
qed

section \<open>The walk over the filesystem with link cycles\<close>

lemma walk_Children_Nil:
  "walkRecursively fs fn follow (Children []) st = Some (None, st)"
  by (subst walkRecursively.simps) simp

lemma walk_Children_Cons:
  "walkRecursively fs fn follow (Children (child # rest)) st =
     Option.bind (walkRecursively fs fn follow (Node child) st)
       (\<lambda>(err, st'). if shouldStopWalk err then Some (err, st')
                      else walkRecursively fs fn follow (Children rest) st')"
  by (subst walkRecursively.simps) simp

lemma walk_Node_in_progress:
  assumes "ToAbs fs root = Some rootAbs" "visited st rootAbs = 1"
  shows "walkRecursively fs fn follow (Node root) st
           = Some (call_fn fn None rootAbs (Some ErrWalkCycle) st)"
  using assms by (subst walkRecursively.simps) simp

lemma walk_Node_done:
  assumes "ToAbs fs root = Some rootAbs" "visited st rootAbs = 2"
  shows "walkRecursively fs fn follow (Node root) st = Some (None, st)"
  using assms by (subst walkRecursively.simps) simp

lemma walk_Node_cycle_link:
  assumes "ToAbs fs root = Some rootAbs" "fresh st rootAbs" "follow" "IsLink fs root"
    "Resolve fs root = Some target" "BasePath_IsRelTo rootAbs target False"
  shows "walkRecursively fs fn follow (Node root) st
           = Some (case call_fn fn (Some rootAbs) rootAbs (Some ErrWalkCycle) (enter rootAbs st) of
                     (err, st') \<Rightarrow> (err, mark rootAbs 2 st'))"
  using assms
  by (subst walkRecursively.simps) (auto simp: fresh_def link_step_def split: prod.splits)

lemma walk_Node_descend:
  assumes "ToAbs fs root = Some rootAbs" "fresh st rootAbs"
    "next_root fs follow root rootAbs = Some root'"
    "call_fn fn (Some rootAbs) root' None (enter rootAbs st) = (None, st2)"
    "IsDir_nofollow fs root'" "ReadDir fs root' = Some children"
  shows "walkRecursively fs fn follow (Node root) st
           = Option.bind (walkRecursively fs fn follow (Children children) st2)
               (\<lambda>(err, st'). Some (err, mark rootAbs 2 st'))"
proof -
  from assms(3) have "link_step fs fn follow root rootAbs (enter rootAbs st) = Inr root'"
    by (simp add: link_step_Inr)
  with assms(1,2,4,5,6) show ?thesis
    by (subst walkRecursively.simps) (simp add: fresh_def shouldStopWalk_def)
qed

lemma walk_Node_leaf:
  assumes "ToAbs fs root = Some rootAbs" "fresh st rootAbs"
    "next_root fs follow root rootAbs = Some root'"
    "call_fn fn (Some rootAbs) root' None (enter rootAbs st) = (None, st2)"
    "\<not> IsDir_nofollow fs root'"
  shows "walkRecursively fs fn follow (Node root) st = Some (None, mark rootAbs 2 st2)"
proof -
  from assms(3) have "link_step fs fn follow root rootAbs (enter rootAbs st) = Inr root'"
    by (simp add: link_step_Inr)
  with assms(1,2,4,5) show ?thesis
    by (subst walkRecursively.simps) (simp add: fresh_def shouldStopWalk_def)
qed

lemma demo_distinct:
  "demo_d \<noteq> demo_up" "demo_d \<noteq> demo_x" "demo_d \<noteq> demo_loop" "demo_up \<noteq> demo_x"
  "demo_up \<noteq> demo_loop" "demo_x \<noteq> demo_loop"
  by code_simp+

lemma demo_ToAbs:
  "ToAbs demo_fs demo_d = Some demo_d" "ToAbs demo_fs demo_up = Some demo_up"
  "ToAbs demo_fs demo_x = Some demo_x" "ToAbs demo_fs demo_loop = Some demo_loop"
  "ToAbs demo_fs demo_e = Some demo_e"
  by code_simp+

lemma demo_next_root:
  "next_root demo_fs True demo_d demo_d = Some demo_d"
  "next_root demo_fs True demo_x demo_x = Some demo_e"
  "next_root demo_fs True demo_loop demo_loop = Some demo_d"
  by code_simp+

lemma demo_up_link:
  "IsLink demo_fs demo_up" "Resolve demo_fs demo_up = Some demo_d" "BasePath_IsRelTo demo_up demo_d False"
  by code_simp+

lemma demo_dirs:
  "IsDir_nofollow demo_fs demo_d" "ReadDir demo_fs demo_d = Some [demo_up, demo_x]"
  "IsDir_nofollow demo_fs demo_e" "ReadDir demo_fs demo_e = Some [demo_loop]"
  by code_simp+

lemma demo_closed: "walk_closed demo_fs True demo_paths" "demo_d \<in> set demo_paths"
  by code_simp+

lemma call_fn_count:
  "call_fn count_calls key p cond st
     = (None, st\<lparr>cb_state := Suc (cb_state st), history := history st @ [Callback key p cond]\<rparr>)"
  by (simp add: call_fn_def count_calls_def)

lemma demo_walk:
  "\<exists>st. Walk demo_fs count_calls True demo_d 0 = Some (None, st)
        \<and> cb_state st = 5
        \<and> history st =
            [Enter demo_d, Callback (Some demo_d) demo_d None,
             Enter demo_up, Callback (Some demo_up) demo_up (Some ErrWalkCycle),
             Enter demo_x, Callback (Some demo_x) demo_e None,
             Enter demo_loop, Callback (Some demo_loop) demo_d None,
             Callback None demo_x (Some ErrWalkCycle)]"
  unfolding Walk_def
  by (simp add: walk_Node_descend [OF demo_ToAbs(1) _ demo_next_root(1) call_fn_count demo_dirs(1,2)]
      walk_Node_descend [OF demo_ToAbs(3) _ demo_next_root(2) call_fn_count demo_dirs(3,4)]
      walk_Node_descend [OF demo_ToAbs(4) _ demo_next_root(3) call_fn_count demo_dirs(1,2)]
      walk_Node_cycle_link [OF demo_ToAbs(2) _ _ demo_up_link]
      walk_Node_in_progress [OF demo_ToAbs(3)] walk_Node_done [OF demo_ToAbs(2)]
      walk_Children_Cons walk_Children_Nil call_fn_count
      fresh_def enter_def mark_def shouldStopWalk_def demo_distinct demo_distinct [symmetric])

lemma demo_nofollow:
  "next_root demo_fs False demo_d demo_d = Some demo_d"
  "next_root demo_fs False demo_up demo_up = Some demo_up"
  "next_root demo_fs False demo_x demo_x = Some demo_x"
  "\<not> IsDir_nofollow demo_fs demo_up" "\<not> IsDir_nofollow demo_fs demo_x"
  by code_simp+

lemma demo_walk_nofollow:
  "\<exists>st. Walk demo_fs count_calls False demo_d 0 = Some (None, st)
        \<and> history st =
            [Enter demo_d, Callback (Some demo_d) demo_d None,
             Enter demo_up, Callback (Some demo_up) demo_up None,
             Enter demo_x, Callback (Some demo_x) demo_x None]"
  unfolding Walk_def
  by (simp add: walk_Node_descend [OF demo_ToAbs(1) _ demo_nofollow(1) call_fn_count demo_dirs(1,2)]
      walk_Node_leaf [OF demo_ToAbs(2) _ demo_nofollow(2) call_fn_count demo_nofollow(4)]
      walk_Node_leaf [OF demo_ToAbs(3) _ demo_nofollow(3) call_fn_count demo_nofollow(5)]
      walk_Children_Cons walk_Children_Nil call_fn_count
      fresh_def enter_def mark_def shouldStopWalk_def demo_distinct demo_distinct [symmetric])

section \<open>The walk over the relative link\<close>

lemma rel_distinct:
  "rel_file_abs \<noteq> rel_link_abs" "rel_file_abs \<noteq> rel_other_abs" "rel_link_abs \<noteq> rel_other_abs"
  by code_simp+

lemma rel_ToAbs:
  "ToAbs rel_fs rel_file = Some rel_file_abs" "ToAbs rel_fs rel_link = Some rel_link_abs"
  "ToAbs rel_fs rel_other = Some rel_other_abs"
  by code_simp+

lemma rel_link_facts:
  "IsLink rel_fs rel_link" "Resolve rel_fs rel_link = Some ''.''"
  "\<not> BasePath_IsRelTo rel_link_abs ''.'' False"
  "ReadLinkPath rel_fs rel_link = Some rel_file"
  "BasePath_IsRelTo rel_link_abs rel_file_abs False"
  by code_simp+

lemma rel_next_root:
  "next_root rel_fs True rel_file rel_file_abs = Some rel_file"
  "next_root rel_fs True rel_link rel_link_abs = Some ''.''"
  "next_root rel_fs True rel_other rel_other_abs = Some rel_other"
  by code_simp+

lemma rel_dirs:
  "IsDir_nofollow rel_fs rel_file" "ReadDir rel_fs rel_file = Some [rel_link]"
  "IsDir_nofollow rel_fs ''.''" "ReadDir rel_fs ''.'' = Some [rel_file, rel_other]"
  "\<not> IsDir_nofollow rel_fs rel_other"
  by code_simp+

lemma rel_walk:
  "\<exists>st. Walk rel_fs count_calls True rel_file 0 = Some (None, st)
        \<and> history st =
            [Enter rel_file_abs, Callback (Some rel_file_abs) rel_file None,
             Enter rel_link_abs, Callback (Some rel_link_abs) ''.'' None,
             Callback None rel_file_abs (Some ErrWalkCycle),
             Enter rel_other_abs, Callback (Some rel_other_abs) rel_other None]"
  unfolding Walk_def
  by (simp add: walk_Node_descend [OF rel_ToAbs(1) _ rel_next_root(1) call_fn_count rel_dirs(1,2)]
      walk_Node_descend [OF rel_ToAbs(2) _ rel_next_root(2) call_fn_count rel_dirs(3,4)]
      walk_Node_leaf [OF rel_ToAbs(3) _ rel_next_root(3) call_fn_count rel_dirs(5)]
      walk_Node_in_progress [OF rel_ToAbs(1)]
      walk_Children_Cons walk_Children_Nil call_fn_count
      fresh_def enter_def mark_def shouldStopWalk_def rel_distinct rel_distinct [symmetric])

section \<open>Walk: termination and cycle reports\<close>

text \<open>
  Claim C1 fails on the code for a link whose target is written as a relative path.
  The parts of the claim that hold: a finite filesystem is one with a finite list \<open>ps\<close>
  of paths that holds the root and is closed under the steps of the walk (\<open>walk_closed\<close>);
  then \<open>Walk\<close> returns, with or without link-following, also when links form cycles.
  When \<open>walkRecursively\<close> reaches a node whose key is marked in progress, it calls the
  callback once with the condition \<open>ErrWalkCycle\<close> for that node and does nothing else.
  When, following links, it reaches a fresh link and the path that \<open>Resolve\<close> returns is a
  prefix of the link's own absolute path in the sense of \<open>IsRelTo\<close> without \<open>walkUp\<close>, it
  marks the key, calls the callback once with \<open>ErrWalkCycle\<close>, marks the key done and does
  not descend.  The loop over the children goes on with the next child after a child
  returned, unless the child's result is a stop signal, which the loop returns.

  The part that fails: \<open>Resolve\<close> returns the text of the link as \<open>os.Readlink\<close> gives it,
  without joining a relative target onto the directory of the link (as \<open>ReadLinkPath\<close>
  does, and as the test of \<open>Resolve\<close> in the repository expects, which wants the
  absolute path of the target).  The link \<open>file\parent_link\<close> with the target \<open>.\<close> points
  at the directory \<open>file\<close> that holds it, an ancestor of its own absolute form
  \<open>C:\proj\file\parent_link\<close>.  The walk compares that absolute form with the text \<open>.\<close>,
  finds no prefix, calls the callback on \<open>.\<close> with the nil condition and descends into
  the working directory: it reaches \<open>other.txt\<close>, outside the tree it was asked to walk,
  and reports the cycle only when it comes back to \<open>file\<close>, for that directory and not
  for the link.
\<close>

theorem Walk_cycles:
  fixes st :: "'s walk_state"
  shows
  "(walk_closed fs follow ps \<and> root \<in> set ps \<longrightarrow>
      (\<exists>err st'. Walk fs fn follow root (s0 :: 's) = Some (err, st')))
   \<and> (ToAbs fs p = Some rootAbs \<and> visited st rootAbs = 1 \<longrightarrow>
        walkRecursively fs fn follow (Node p) st
          = Some (call_fn fn None rootAbs (Some ErrWalkCycle) st))
   \<and> (ToAbs fs p = Some rootAbs \<and> fresh st rootAbs \<and> IsLink fs p
        \<and> Resolve fs p = Some target \<and> BasePath_IsRelTo rootAbs target False \<longrightarrow>
        walkRecursively fs fn True (Node p) st
          = Some (case call_fn fn (Some rootAbs) rootAbs (Some ErrWalkCycle) (enter rootAbs st) of
                    (err, st') \<Rightarrow> (err, mark rootAbs 2 st')))
   \<and> (walkRecursively fs fn follow (Node c) st = Some (e, st1) \<longrightarrow>
        walkRecursively fs fn follow (Children (c # cs)) st
          = (if shouldStopWalk e then Some (e, st1)
             else walkRecursively fs fn follow (Children cs) st1))
   \<and> IsLink rel_fs rel_link
   \<and> ToAbs rel_fs rel_link = Some rel_link_abs
   \<and> ReadLinkPath rel_fs rel_link = Some rel_file
   \<and> ToAbs rel_fs rel_file = Some rel_file_abs
   \<and> BasePath_IsRelTo rel_link_abs rel_file_abs False
   \<and> Resolve rel_fs rel_link = Some ''.''
   \<and> \<not> BasePath_IsRelTo rel_link_abs ''.'' False
   \<and> (\<exists>st. Walk rel_fs count_calls True rel_file 0 = Some (None, st)
          \<and> history st =
              [Enter rel_file_abs, Callback (Some rel_file_abs) rel_file None,
               Enter rel_link_abs, Callback (Some rel_link_abs) ''.'' None,
               Callback None rel_file_abs (Some ErrWalkCycle),
               Enter rel_other_abs, Callback (Some rel_other_abs) rel_other None])"
proof -
  have "\<exists>err st'. Walk fs fn follow root s0 = Some (err, st')"
    if "walk_closed fs follow ps" "root \<in> set ps"
    using walk_returns [OF that(1), of "Node root" fn] that(2) by (auto simp: Walk_def)
  moreover have "walkRecursively fs fn follow (Children (c # cs)) st
          = (if shouldStopWalk e then Some (e, st1)
             else walkRecursively fs fn follow (Children cs) st1)"
    if "walkRecursively fs fn follow (Node c) st = Some (e, st1)"
    using that by (simp add: walk_Children_Cons)
  ultimately show ?thesis
    using walk_Node_in_progress [of fs p rootAbs st fn follow]
      walk_Node_cycle_link [of fs p rootAbs st True target fn]
      rel_link_facts rel_ToAbs rel_walk
    by blast
qed

theorem Walk_cycles_witness:
  "(\<exists>err st. Walk demo_fs count_calls True demo_d 0 = Some (err, st))
   \<and> map_option (\<lambda>r. history (snd r))
        (walkRecursively demo_fs count_calls True (Node demo_d) (enter demo_d demo_start))
       = Some [Enter demo_d, Callback None demo_d (Some ErrWalkCycle)]
   \<and> map_option (\<lambda>r. (fst r, history (snd r), visited (snd r) demo_up))
        (walkRecursively demo_fs count_calls True (Node demo_up) demo_start)
       = Some (None, [Enter demo_up, Callback (Some demo_up) demo_up (Some ErrWalkCycle)], 2)
   \<and> map_option (\<lambda>r. history (snd r))
        (walkRecursively demo_fs count_calls True (Children [demo_up, demo_up]) demo_start)
       = Some [Enter demo_up, Callback (Some demo_up) demo_up (Some ErrWalkCycle)]
   \<and> (\<exists>st. Walk rel_fs count_calls True rel_file 0 = Some (None, st)
          \<and> Callback (Some rel_link_abs) ''.'' None \<in> set (history st)
          \<and> Callback (Some rel_other_abs) rel_other None \<in> set (history st)
          \<and> Callback (Some rel_link_abs) rel_link_abs (Some ErrWalkCycle) \<notin> set (history st))"
proof -
  note inst = Walk_cycles [of demo_fs True demo_paths demo_d count_calls 0 demo_up demo_up
      demo_start demo_d demo_up None
      "mark demo_up 2 ((enter demo_up demo_start)\<lparr>cb_state := Suc 0,
          history := [Enter demo_up, Callback (Some demo_up) demo_up (Some ErrWalkCycle)]\<rparr>)"
      "[demo_up]"]
  have fr: "fresh demo_start demo_up" by (simp add: fresh_def demo_start_def)
  from inst demo_closed have 1: "\<exists>err st. Walk demo_fs count_calls True demo_d 0 = Some (err, st)"
    by blast
  from Walk_cycles [of demo_fs True demo_paths demo_d count_calls 0 demo_d demo_d
      "enter demo_d demo_start"] demo_ToAbs(1)
  have 2: "walkRecursively demo_fs count_calls True (Node demo_d) (enter demo_d demo_start)
             = Some (call_fn count_calls None demo_d (Some ErrWalkCycle) (enter demo_d demo_start))"
    by (simp add: enter_def mark_def)
  from inst demo_ToAbs(2) fr demo_up_link
  have 3: "walkRecursively demo_fs count_calls True (Node demo_up) demo_start
             = Some (case call_fn count_calls (Some demo_up) demo_up (Some ErrWalkCycle)
                            (enter demo_up demo_start) of
                       (err, st') \<Rightarrow> (err, mark demo_up 2 st'))"
    by blast
  then have c3: "walkRecursively demo_fs count_calls True (Node demo_up) demo_start
             = Some (None, mark demo_up 2 ((enter demo_up demo_start)\<lparr>cb_state := Suc 0,
                  history := [Enter demo_up, Callback (Some demo_up) demo_up (Some ErrWalkCycle)]\<rparr>))"
    by (simp add: call_fn_count enter_def mark_def demo_start_def)
  with inst
  have 4: "walkRecursively demo_fs count_calls True (Children [demo_up, demo_up]) demo_start
             = walkRecursively demo_fs count_calls True (Children [demo_up])
                 (mark demo_up 2 ((enter demo_up demo_start)\<lparr>cb_state := Suc 0,
                  history := [Enter demo_up, Callback (Some demo_up) demo_up (Some ErrWalkCycle)]\<rparr>))"
    by (simp add: shouldStopWalk_def)
  have 5: "walkRecursively demo_fs count_calls True (Children [demo_up])
                 (mark demo_up 2 ((enter demo_up demo_start)\<lparr>cb_state := Suc 0,
                  history := [Enter demo_up, Callback (Some demo_up) demo_up (Some ErrWalkCycle)]\<rparr>))
           = Some (None, mark demo_up 2 ((enter demo_up demo_start)\<lparr>cb_state := Suc 0,
                  history := [Enter demo_up, Callback (Some demo_up) demo_up (Some ErrWalkCycle)]\<rparr>))"
    by (simp add: walk_Children_Cons walk_Children_Nil walk_Node_done [OF demo_ToAbs(2)]
        mark_def shouldStopWalk_def)
  from inst obtain st where
    w: "Walk rel_fs count_calls True rel_file 0 = Some (None, st)"
    and h: "history st =
              [Enter rel_file_abs, Callback (Some rel_file_abs) rel_file None,
               Enter rel_link_abs, Callback (Some rel_link_abs) ''.'' None,
               Callback None rel_file_abs (Some ErrWalkCycle),
               Enter rel_other_abs, Callback (Some rel_other_abs) rel_other None]"
    by blast
  have 6: "\<exists>st. Walk rel_fs count_calls True rel_file 0 = Some (None, st)
          \<and> Callback (Some rel_link_abs) ''.'' None \<in> set (history st)
          \<and> Callback (Some rel_other_abs) rel_other None \<in> set (history st)
          \<and> Callback (Some rel_link_abs) rel_link_abs (Some ErrWalkCycle) \<notin> set (history st)"
    using w h by (intro exI [of _ st]) simp
  show ?thesis
    using 1 2 c3 4 5 6
    by (simp add: call_fn_count enter_def mark_def demo_start_def)
qed

section \<open>Walk: each key is entered once\<close>

text \<open>
  Claim C10 as stated fails when links are followed: the walk marks the path of the link,
  not its target, and calls the callback on the target.  In the filesystem with link
  cycles the callback gets the directory \<open>C:\d\<close> with the nil condition twice in one walk:
  once for the directory itself and once for the link \<open>C:\e\loop\<close> that points to it.
\<close>

theorem Walk_nil_twice_for_a_path:
  "\<exists>st. Walk demo_fs count_calls True demo_d 0 = Some (None, st)
        \<and> nil_paths (history st) = [demo_d, demo_e, demo_d]
        \<and> nil_keys (history st) = [demo_d, demo_x, demo_loop]
        \<and> \<not> distinct (nil_paths (history st))
        \<and> \<not> distinct (map (ToAbs demo_fs) (nil_paths (history st)))"
proof -
  from demo_walk obtain st where
    w: "Walk demo_fs count_calls True demo_d 0 = Some (None, st)"
    and h: "history st =
            [Enter demo_d, Callback (Some demo_d) demo_d None,
             Enter demo_up, Callback (Some demo_up) demo_up (Some ErrWalkCycle),
             Enter demo_x, Callback (Some demo_x) demo_e None,
             Enter demo_loop, Callback (Some demo_loop) demo_d None,
             Callback None demo_x (Some ErrWalkCycle)]"
    by blast
  show ?thesis
    using w by (intro exI [of _ st]) (simp add: h demo_ToAbs)
qed

text \<open>
  Claim C10, amended.  In the history of one \<open>Walk\<close>, whatever the mode, no key is entered
  twice (the guarded part of \<open>walkRecursively\<close> runs at most once per key), and the
  callback gets the nil condition at most once for each key, where the key is that of the
  node the walk is at (the absolute form of its path, before a link is resolved), and
  each time for an entered key.  Without link-following that key is the absolute form of
  the path the callback gets, so the callback gets the nil condition at most once per
  absolute path.  The same holds for the events any call of \<open>walkRecursively\<close> adds, and
  the keys it enters were fresh (neither in progress nor done).  Reaching a key that is
  marked done returns nil and leaves the state as it is: no callback is called.
\<close>

theorem Walk_once_per_key:
  fixes st1 :: "'s walk_state"
  shows
  "(Walk fs fn follow root (s0 :: 's) = Some (err, st) \<longrightarrow>
      distinct (entered (history st)) \<and> distinct (nil_keys (history st))
      \<and> set (nil_keys (history st)) \<subseteq> set (entered (history st)))
   \<and> (Walk fs fn False root s0 = Some (err, st) \<longrightarrow>
        map (ToAbs fs) (nil_paths (history st)) = map Some (nil_keys (history st))
        \<and> distinct (map (ToAbs fs) (nil_paths (history st)))
        \<and> distinct (nil_paths (history st)))
   \<and> (walkRecursively fs fn follow arg st1 = Some (err', st2) \<longrightarrow>
        (\<exists>new. history st2 = history st1 @ new \<and> distinct (entered new)
               \<and> (\<forall>k \<in> set (entered new). fresh st1 k)
               \<and> distinct (nil_keys new) \<and> set (nil_keys new) \<subseteq> set (entered new)))
   \<and> (ToAbs fs p = Some key \<and> visited st1 key = 2 \<longrightarrow>
        walkRecursively fs fn follow (Node p) st1 = Some (None, st1))"
proof -
  have a: "\<exists>new. history st2 = history st1 @ new \<and> distinct (entered new)
               \<and> (\<forall>k \<in> set (entered new). fresh st1 k)
               \<and> distinct (nil_keys new) \<and> set (nil_keys new) \<subseteq> set (entered new)"
    if "walkRecursively fs fn follow arg st1 = Some (err', st2)"
    using walk_history_step [OF that] by (auto simp: walk_inv_def extends_def)
  have b: "distinct (entered (history st)) \<and> distinct (nil_keys (history st))
      \<and> set (nil_keys (history st)) \<subseteq> set (entered (history st))"
    if "Walk fs fn follow root s0 = Some (err, st)"
    using walk_history_step [OF that [unfolded Walk_def]]
    by (auto simp: walk_inv_def extends_def)
  have c: "map (ToAbs fs) (nil_paths (history st)) = map Some (nil_keys (history st))
        \<and> distinct (map (ToAbs fs) (nil_paths (history st)))
        \<and> distinct (nil_paths (history st))"
    if "Walk fs fn False root s0 = Some (err, st)"
  proof -
    note p = walk_nofollow_paths [OF that]
    from p(2) [unfolded distinct_map] have "distinct (nil_paths (history st))" by simp
    with p show ?thesis by blast
  qed
  show ?thesis
    using a b c walk_Node_done [of fs p key st1 fn follow] by blast
qed

theorem Walk_once_per_key_witness:
  "(\<exists>st. Walk demo_fs count_calls True demo_d 0 = Some (None, st)
         \<and> entered (history st) = [demo_d, demo_up, demo_x, demo_loop]
         \<and> nil_keys (history st) = [demo_d, demo_x, demo_loop]
         \<and> distinct (entered (history st)) \<and> distinct (nil_keys (history st)))
   \<and> (\<exists>st. Walk demo_fs count_calls False demo_d 0 = Some (None, st)
         \<and> nil_paths (history st) = [demo_d, demo_up, demo_x]
         \<and> distinct (map (ToAbs demo_fs) (nil_paths (history st))))
   \<and> walkRecursively demo_fs count_calls True (Node demo_d) (mark demo_d 2 demo_start)
       = Some (None, mark demo_d 2 demo_start)"
proof -
  from demo_walk obtain st where
    w: "Walk demo_fs count_calls True demo_d 0 = Some (None, st)"
    and h: "history st =
            [Enter demo_d, Callback (Some demo_d) demo_d None,
             Enter demo_up, Callback (Some demo_up) demo_up (Some ErrWalkCycle),
             Enter demo_x, Callback (Some demo_x) demo_e None,
             Enter demo_loop, Callback (Some demo_loop) demo_d None,
             Callback None demo_x (Some ErrWalkCycle)]"
    by blast
  from demo_walk_nofollow obtain sn where
    wn: "Walk demo_fs count_calls False demo_d 0 = Some (None, sn)"
    and hn: "history sn =
            [Enter demo_d, Callback (Some demo_d) demo_d None,
             Enter demo_up, Callback (Some demo_up) demo_up None,
             Enter demo_x, Callback (Some demo_x) demo_x None]"
    by blast
  note inst = Walk_once_per_key [of demo_fs count_calls True demo_d 0 None st
      "Node demo_d" "mark demo_d 2 demo_start" None "mark demo_d 2 demo_start" demo_d demo_d]
  from inst w have d: "distinct (entered (history st)) \<and> distinct (nil_keys (history st))"
    by blast
  from Walk_once_per_key [of demo_fs count_calls False demo_d 0 None sn] wn
  have dn: "distinct (map (ToAbs demo_fs) (nil_paths (history sn)))" by blast
  have v: "visited (mark demo_d 2 demo_start) demo_d = 2" by (simp add: mark_def)
  from inst demo_ToAbs(1) v
  have "walkRecursively demo_fs count_calls True (Node demo_d) (mark demo_d 2 demo_start)
          = Some (None, mark demo_d 2 demo_start)"
    by blast
  moreover have "entered (history st) = [demo_d, demo_up, demo_x, demo_loop]"
    "nil_keys (history st) = [demo_d, demo_x, demo_loop]"
    by (simp_all add: h)
  moreover have "nil_paths (history sn) = [demo_d, demo_up, demo_x]" by (simp add: hn)
  ultimately show ?thesis using w d wn dn by blast
qed

section \<open>File URLs do not round-trip\<close>

text \<open>
  Claim C7 fails on the code.  \<open>ToURL\<close> writes the path into the URL as it is, without
  escaping, and \<open>URLToPath\<close> reads it back with \<open>url.Parse\<close>, which cuts a fragment at
  \<open>#\<close> and decodes \<open>%\<close> escapes.  The valid absolute path \<open>C:\a#b\<close> becomes
  \<open>file:///C:/a#b\<close> and comes back as \<open>C:\a\<close>; \<open>C:\100%\<close> becomes \<open>file:///C:/100%\<close>, which
  does not parse.  (\<open>filepath.Abs\<close> of an absolute path is \<open>filepath.Clean\<close>, as in
  \<open>demo_fs\<close>.)
\<close>

theorem URL_roundtrip_fails:
  "ValidatePath (FromSlash ''C:/a#b'') = None \<and> IsAbs (FromSlash ''C:/a#b'')
   \<and> ToURL demo_fs (FromSlash ''C:/a#b'') = Inr ''file:///C:/a#b''
   \<and> FromURL ''file:///C:/a#b'' = Inr (FromSlash ''C:/a'')
   \<and> ValidatePath (FromSlash ''C:/100%'') = None \<and> IsAbs (FromSlash ''C:/100%'')
   \<and> ToURL demo_fs (FromSlash ''C:/100%'') = Inr ''file:///C:/100%''
   \<and> FromURL ''file:///C:/100%'' = Inl ErrParseURL
   \<and> FromURL ''file:///C:/path/to/file.txt'' = Inr (FromSlash ''C:/path/to/file.txt'')"
  by code_simp

theorem URL_roundtrip_fails_witness:
  "FromURL ''file:///C:/a#b'' \<noteq> Inr (FromSlash ''C:/a#b'')
   \<and> FromURL ''file:///C:/100%'' \<noteq> Inr (FromSlash ''C:/100%'')"
proof -
  have "FromSlash ''C:/a'' \<noteq> FromSlash ''C:/a#b''" by code_simp
  then show ?thesis using URL_roundtrip_fails by simp
qed

section \<open>Remove on an absent path\<close>

text \<open>
  Claim C8.  When \<open>Lstat\<close> fails for the path (the path does not exist, links not
  followed), \<open>Remove\<close> returns nil and the filesystem state is the one it was given, in the
  recursive and in the plain mode.  A link whose target is missing exists for \<open>Lstat\<close>:
  there \<open>Remove\<close> does call \<open>os.RemoveAll\<close> or \<open>os.Remove\<close> and returns their state.
\<close>

theorem Remove_absent:
  "(os_Lstat os w p = None \<longrightarrow> Remove os p isRecursive w = (None, w))
   \<and> (os_Lstat os w p = Some Symlink \<and> os_Stat os w p = None \<longrightarrow>
        Remove os p True w
          = (map_option (\<lambda>err. ErrRemove) (fst (os_RemoveAll os w p)), snd (os_RemoveAll os w p))
        \<and> Remove os p False w
          = (map_option (\<lambda>err. ErrRemove) (fst (os_Remove os w p)), snd (os_Remove os w p)))"
  by (auto simp: Remove_def Exists_def split: prod.splits option.splits)

theorem Remove_absent_witness:
  "Remove entries_os (FromSlash ''C:/d/nothing'') True demo_entries = (None, demo_entries)
   \<and> Remove entries_os (FromSlash ''C:/d/nothing'') False demo_entries = (None, demo_entries)
   \<and> Exists entries_os demo_entries (FromSlash ''C:/d/lnof.md'') False
   \<and> \<not> Exists entries_os demo_entries (FromSlash ''C:/d/lnof.md'') True
   \<and> Remove entries_os (FromSlash ''C:/d/lnof.md'') False demo_entries
       = (None, [(FromSlash ''C:/d'', Directory, []), (FromSlash ''C:/d/f.md'', Regular, [])])"
proof -
  have a: "os_Lstat entries_os demo_entries (FromSlash ''C:/d/nothing'') = None" by code_simp
  have b: "os_Lstat entries_os demo_entries (FromSlash ''C:/d/lnof.md'') = Some Symlink"
    "os_Stat entries_os demo_entries (FromSlash ''C:/d/lnof.md'') = None"
    by code_simp+
  have c: "os_Remove entries_os demo_entries (FromSlash ''C:/d/lnof.md'')
             = (None, [(FromSlash ''C:/d'', Directory, []), (FromSlash ''C:/d/f.md'', Regular, [])])"
    by code_simp
  from Remove_absent [of entries_os demo_entries "FromSlash ''C:/d/nothing''" True] a
  have 1: "Remove entries_os (FromSlash ''C:/d/nothing'') True demo_entries = (None, demo_entries)"
    by simp
  from Remove_absent [of entries_os demo_entries "FromSlash ''C:/d/nothing''" False] a
  have 2: "Remove entries_os (FromSlash ''C:/d/nothing'') False demo_entries = (None, demo_entries)"
    by simp
  from Remove_absent [of entries_os demo_entries "FromSlash ''C:/d/lnof.md''"] b c
  have 3: "Remove entries_os (FromSlash ''C:/d/lnof.md'') False demo_entries
       = (None, [(FromSlash ''C:/d'', Directory, []), (FromSlash ''C:/d/f.md'', Regular, [])])"
    by simp
  from b have 4: "Exists entries_os demo_entries (FromSlash ''C:/d/lnof.md'') False"
    "\<not> Exists entries_os demo_entries (FromSlash ''C:/d/lnof.md'') True"
    by (simp_all add: Exists_def)
  from 1 2 3 4 show ?thesis by simp
qed

end
